theory Spec2Isabelle
  imports Main "HOL-Library.Word"
begin

unbundle bit_operations_syntax

section \<open>AberLED: data model\<close>

text \<open>
  The library targets the ATmega328p (see \<open>setupInterrupt\<close>): \<open>int\<close> is 16 bits wide,
  \<open>byte\<close> and \<open>unsigned char\<close> are 8 bits, \<open>uint16_t\<close> is 16 bits. Signed values are
  read with \<open>sint\<close> and compared with \<open><s\<close> and \<open>\<le>s\<close>; arithmetic wraps in two's
  complement, as the code generated for this processor does.
\<close>

type_synonym byte = "8 word"
type_synonym int16 = "16 word"
type_synonym uint16 = "16 word"

text \<open>
  \<open>backBuffer\<close> and \<open>frontBuffer\<close> are pointers to \<open>bufferA\<close> or \<open>bufferB\<close>; as file-scope
  statics they are null until \<open>begin\<close> assigns them.
\<close>

datatype bufptr = Null | PtrA | PtrB

text \<open>
  What the refresh code sends to the hardware, one event per protocol step. The port
  writes of \<open>fastShiftOutCols\<close> and \<open>fastShiftOutRows\<close> are collapsed to the word
  they clock out; the row clock pulse records the level of the row data line.
\<close>

datatype hw_event =
    LatchLow
  | LatchHigh
  | RowClock bool
  | ColsOut uint16
  | TftFillRect int int int int uint16
  | TftSetTextColor
  | TftSetCursor int int
  | TftPrint string
  | SerialPrintln string

record state =
  UP :: int16
  DOWN :: int16
  LEFT :: int16
  RIGHT :: int16
  FIRE :: int16
  bufferA :: "uint16 list"
  bufferB :: "uint16 list"
  backBuffer :: bufptr
  frontBuffer :: bufptr
  buttonStates :: "byte list"
  debouncedButtonStates :: "byte list"
  buttonDebounceCounters :: "byte list"
  buttonWentDown :: "byte list"
  buttonWentDownInLastLoop :: "byte list"
  boardRev :: int16
  ticks :: int16
  interruptRunning :: bool
  interruptTicks :: int16
  isTFT :: bool
  prevTxtBuffer :: string
  txtBuffer :: string
  cols :: "uint16 list"
  refrow :: int16
  trueButtonStates :: "byte list"
  button :: byte
  out :: "hw_event list"

definition REV00 :: int16 where "REV00 = 0"
definition REV01 :: int16 where "REV01 = 1"
definition AF_LEDDISPLAY :: int16 where "AF_LEDDISPLAY = 1"
definition AF_TFTDISPLAY :: int16 where "AF_TFTDISPLAY = 2"
definition AF_NOINTERRUPT :: int16 where "AF_NOINTERRUPT = 4"
definition MAXTEXTLEN :: nat where "MAXTEXTLEN = 32"
definition NUL :: char where "NUL = CHR 0x00"

text \<open>
  The values the static initialisers give: arrays of zeros, \<open>boardRev = -1\<close>, null
  pointers, everything else zero. The colour table holds the ST7735 driver's 5-6-5
  constants for black, green, red and yellow.
\<close>

definition static_init :: state where
  "static_init = \<lparr>
     UP = 0, DOWN = 0, LEFT = 0, RIGHT = 0, FIRE = 0,
     bufferA = replicate 8 0, bufferB = replicate 8 0,
     backBuffer = Null, frontBuffer = Null,
     buttonStates = replicate 5 0,
     debouncedButtonStates = replicate 5 0,
     buttonDebounceCounters = replicate 5 0,
     buttonWentDown = replicate 5 0,
     buttonWentDownInLastLoop = replicate 5 0,
     boardRev = - 1,
     ticks = 0,
     interruptRunning = False,
     interruptTicks = 0,
     isTFT = False,
     prevTxtBuffer = replicate 32 NUL,
     txtBuffer = replicate 32 NUL,
     cols = [0x0000, 0x07E0, 0xF800, 0xFFE0],
     refrow = 0,
     trueButtonStates = replicate 5 0,
     button = 0,
     out = [] \<rparr>"

subsection \<open>Memory access\<close>

text \<open>
  A read or write through a pointer yields \<open>None\<close> when the pointer is null; an index
  into a fixed-size array yields \<open>None\<close> when it is outside the declared size.
\<close>

definition deref :: "state \<Rightarrow> bufptr \<Rightarrow> uint16 list option" where
  "deref s p = (case p of Null \<Rightarrow> None | PtrA \<Rightarrow> Some (bufferA s) | PtrB \<Rightarrow> Some (bufferB s))"

definition store :: "bufptr \<Rightarrow> uint16 list \<Rightarrow> state \<Rightarrow> state option" where
  "store p b s = (case p of Null \<Rightarrow> None
                  | PtrA \<Rightarrow> Some (s\<lparr>bufferA := b\<rparr>)
                  | PtrB \<Rightarrow> Some (s\<lparr>bufferB := b\<rparr>))"

definition array_get :: "nat \<Rightarrow> 'a list \<Rightarrow> int \<Rightarrow> 'a option" where
  "array_get n xs i = (if 0 \<le> i \<and> i < int n then Some (xs ! nat i) else None)"

text \<open>C's \<open>%\<close> on 16-bit signed operands: the remainder takes the sign of the dividend.\<close>

definition c_rem :: "int16 \<Rightarrow> int16 \<Rightarrow> int16" where
  "c_rem a b = word_of_int (sgn (sint a) * (\<bar>sint a\<bar> mod \<bar>sint b\<bar>))"

subsection \<open>C strings in a fixed buffer\<close>

definition c_str :: "string \<Rightarrow> string" where
  "c_str b = takeWhile (\<lambda>c. c \<noteq> NUL) b"

definition strlen :: "string \<Rightarrow> nat" where
  "strlen b = length (c_str b)"

text \<open>\<open>strcat\<close> and \<open>strcpy\<close> write the source's characters and one terminator.\<close>

definition strcat :: "string \<Rightarrow> string \<Rightarrow> string" where
  "strcat dst src =
     take (strlen dst) dst @ c_str src @ [NUL] @ drop (strlen dst + strlen src + 1) dst"

definition strcpy :: "string \<Rightarrow> string \<Rightarrow> string" where
  "strcpy dst src = c_str src @ [NUL] @ drop (strlen src + 1) dst"

section \<open>Operations\<close>

definition setRevision :: "int16 \<Rightarrow> state \<Rightarrow> state" where
  "setRevision r s =
     (if r = REV01
      then s\<lparr>boardRev := r, UP := 1, DOWN := 2, LEFT := 4, RIGHT := 3, FIRE := 5\<rparr>
      else s\<lparr>boardRev := r, UP := 2, DOWN := 4, LEFT := 1, RIGHT := 3, FIRE := 5\<rparr>)"

definition getTicks :: "state \<Rightarrow> int16" where
  "getTicks s = ticks s"

definition getBuffer :: "state \<Rightarrow> bufptr" where
  "getBuffer s = backBuffer s"

text \<open>
  \<open>set(x, y, col)\<close>: \<open>x\<close> and \<open>y\<close> are 16-bit \<open>int\<close>s, \<open>col\<close> an \<open>unsigned char\<close> promoted
  to \<open>int\<close> before the shift; the row is a \<open>uint16_t\<close>, so bits shifted beyond bit 15 are
  lost.
\<close>

definition set_pixel :: "int16 \<Rightarrow> int16 \<Rightarrow> byte \<Rightarrow> state \<Rightarrow> state option" where
  "set_pixel x y col s =
     (if x <s 8 \<and> y <s 8 \<and> 0 \<le>s x \<and> 0 \<le>s y
      then (case deref s (backBuffer s) of
              None \<Rightarrow> None
            | Some b \<Rightarrow>
                let x2 = x * 2;
                    p0 = b ! unat y;
                    p1 = p0 AND NOT (push_bit (unat x2) 3);
                    p2 = p1 OR push_bit (unat x2) (ucast col)
                in store (backBuffer s) (b[unat y := p2]) s)
      else Some s)"

definition clear :: "state \<Rightarrow> state option" where
  "clear s = store (backBuffer s) (replicate 8 0) s"

text \<open>Reading pixel \<open>x\<close> of a row word, as \<open>refreshNextRow\<close> decodes it.\<close>

definition pixel_of :: "uint16 \<Rightarrow> nat \<Rightarrow> uint16" where
  "pixel_of v x = drop_bit (x * 2) v AND 3"

subsection \<open>Scanline refresh\<close>

text \<open>
  \<open>refreshNextRow\<close> reads row \<open>refrow\<close> of the front buffer. On the TFT it paints the
  eight pixels of the row as rectangles in the colour the table gives; on the LED
  matrix it pulses the row clock (with the data line high on row 0 only), shifts out
  the complemented row word and latches. Then the cursor advances modulo 8.
\<close>

definition tft_row :: "state \<Rightarrow> uint16 \<Rightarrow> hw_event list" where
  "tft_row s v =
     map (\<lambda>x. TftFillRect (16 * int x + 2) (16 * sint (refrow s) + 2) 12 12
                 (cols s ! unat (pixel_of v x))) [0..<8]"

definition led_row :: "state \<Rightarrow> uint16 \<Rightarrow> hw_event list" where
  "led_row s v = [LatchLow, RowClock (refrow s = 0), ColsOut (NOT v), LatchHigh]"

definition refreshNextRow :: "state \<Rightarrow> state option" where
  "refreshNextRow s =
     (case deref s (frontBuffer s) of
        None \<Rightarrow> None
      | Some b \<Rightarrow>
          (case array_get 8 b (sint (refrow s)) of
             None \<Rightarrow> None
           | Some v \<Rightarrow>
               Some (s\<lparr>out := out s @ (if isTFT s then tft_row s v else led_row s v),
                       refrow := c_rem (refrow s + 1) 8\<rparr>)))"

fun repeat_opt :: "nat \<Rightarrow> ('a \<Rightarrow> 'a option) \<Rightarrow> 'a \<Rightarrow> 'a option" where
  "repeat_opt 0 f s = Some s"
| "repeat_opt (Suc n) f s = (case f s of None \<Rightarrow> None | Some s' \<Rightarrow> repeat_opt n f s')"

text \<open>The manual refresh: eight rows from row 0, then (LED only) all columns off.\<close>

definition refresh :: "state \<Rightarrow> state option" where
  "refresh s =
     (case repeat_opt 8 refreshNextRow (s\<lparr>refrow := 0\<rparr>) of
        None \<Rightarrow> None
      | Some s' \<Rightarrow>
          Some (if isTFT s' then s'
                else s'\<lparr>out := out s' @ [LatchLow, ColsOut 0xffff, LatchHigh]\<rparr>))"

subsection \<open>Startup\<close>

text \<open>
  \<open>begin\<close>: the pin configuration, the splash screen and the timer registers are not
  part of the state; what remains is the revision, the device flag, the colour table,
  the buffers and their pointers, the text buffers and the interrupt flag. A colour map,
  when given, is read as 12 bytes.

  \<open>begin\<close> assigns the two pointers in two statements and does not mask the interrupt.
  The call is therefore split where the pointers change: \<open>begin_head\<close> runs up to and
  including \<open>backBuffer = bufferA\<close>, \<open>begin_tail\<close> from \<open>frontBuffer = bufferB\<close> to the
  end, and the state between the two is one that a firing of the interrupt can meet
  when \<open>begin\<close> is called while the timer is already running. \<open>begin_op\<close> is the whole
  call with no firing inside it. That is every execution of the first call, since the
  timer is set up by its last statement.
\<close>

definition colour565 :: "byte \<Rightarrow> byte \<Rightarrow> byte \<Rightarrow> uint16" where
  "colour565 r g b =
     push_bit 11 (ucast (drop_bit 3 r) AND 0x1f)
       OR push_bit 5 (ucast (drop_bit 2 g) AND 0x3f)
       OR (ucast (drop_bit 3 b) AND 0x1f)"

definition setupInterrupt :: "state \<Rightarrow> state" where
  "setupInterrupt s = s\<lparr>interruptRunning := True\<rparr>"

definition begin_head :: "int16 \<Rightarrow> byte list option \<Rightarrow> state \<Rightarrow> state option" where
  "begin_head flags colourMap s0 =
     (let s1 = setRevision REV01 s0;
          s2 = s1\<lparr>isTFT := (flags AND AF_TFTDISPLAY \<noteq> 0)\<rparr>;
          s3 = (case colourMap of
                  None \<Rightarrow> Some s2
                | Some cm \<Rightarrow>
                    if \<not> isTFT s2 then Some s2
                    else if length cm < 12 then None
                    else Some (s2\<lparr>cols :=
                           map (\<lambda>i. colour565 (cm ! (3 * i)) (cm ! (3 * i + 1)) (cm ! (3 * i + 2)))
                               [0..<4]\<rparr>))
      in (case s3 of
            None \<Rightarrow> None
          | Some s4 \<Rightarrow> Some (s4\<lparr>backBuffer := PtrA\<rparr>)))"

definition begin_tail :: "int16 \<Rightarrow> state \<Rightarrow> state option" where
  "begin_tail flags s4 =
     (let s5 = s4\<lparr>frontBuffer := PtrB\<rparr>
      in (case store (backBuffer s5) (replicate 8 0) s5 of
            None \<Rightarrow> None
          | Some s6 \<Rightarrow>
              (case store (frontBuffer s6) (replicate 8 0) s6 of
                 None \<Rightarrow> None
               | Some s7 \<Rightarrow>
                   let s8 = s7\<lparr>txtBuffer := (txtBuffer s7)[0 := NUL],
                               prevTxtBuffer := (prevTxtBuffer s7)[0 := NUL]\<rparr>
                   in Some (if flags AND AF_NOINTERRUPT = 0 then setupInterrupt s8 else s8))))"

definition begin_op :: "int16 \<Rightarrow> byte list option \<Rightarrow> state \<Rightarrow> state option" where
  "begin_op flags colourMap s0 =
     (case begin_head flags colourMap s0 of
        None \<Rightarrow> None
      | Some s4 \<Rightarrow> begin_tail flags s4)"

subsection \<open>Text overlay\<close>

definition renderText :: "state \<Rightarrow> state" where
  "renderText s =
     (if c_str (txtBuffer s) \<noteq> c_str (prevTxtBuffer s)
      then s\<lparr>prevTxtBuffer := strcpy (prevTxtBuffer s) (txtBuffer s),
              out := out s @ [SerialPrintln (c_str (txtBuffer s)), TftFillRect 0 150 128 16 0]
                     @ (if txtBuffer s ! 0 \<noteq> NUL
                        then [TftSetTextColor, TftSetCursor 4 150, TftPrint (c_str (txtBuffer s))]
                        else [])\<rparr>
      else s)"

definition clearText :: "state \<Rightarrow> state" where
  "clearText s = (if isTFT s then s\<lparr>txtBuffer := (txtBuffer s)[0 := NUL]\<rparr> else s)"

definition addToText :: "string \<Rightarrow> state \<Rightarrow> state" where
  "addToText str s =
     (if isTFT s
      then (if strlen (txtBuffer s) + strlen str + 1 < MAXTEXTLEN
            then s\<lparr>txtBuffer := strcat (txtBuffer s) str\<rparr>
            else s)
      else s)"

text \<open>\<open>snprintf(tmp, 16, "%d", n)\<close> for a 16-bit \<open>int\<close>: at most six characters.\<close>

fun dec_digits :: "nat \<Rightarrow> string" where
  "dec_digits n =
     (if n < 10 then [char_of (48 + n)]
      else dec_digits (n div 10) @ [char_of (48 + n mod 10)])"

definition dec_string :: "int16 \<Rightarrow> string" where
  "dec_string n = (if sint n < 0 then CHR ''-'' # dec_digits (nat (- sint n))
                   else dec_digits (nat (sint n)))"

definition addToText_int :: "int16 \<Rightarrow> state \<Rightarrow> state" where
  "addToText_int n s = addToText (dec_string n) s"

subsection \<open>Button queries\<close>

text \<open>
  \<open>buttonStates[c - 1]\<close>: \<open>c\<close> is an \<open>unsigned char\<close>, promoted to \<open>int\<close> before the
  subtraction, so the index ranges over \<open>-1 .. 254\<close>; the arrays have 5 elements.
\<close>

definition getButton :: "byte \<Rightarrow> state \<Rightarrow> int16 option" where
  "getButton c s = map_option ucast (array_get 5 (buttonStates s) (uint c - 1))"

definition getButtonDown :: "byte \<Rightarrow> state \<Rightarrow> int16 option" where
  "getButtonDown c s = map_option ucast (array_get 5 (buttonWentDownInLastLoop s) (uint c - 1))"

subsection \<open>Buffer exchange\<close>

text \<open>The loop body of \<open>swap\<close> for one index, and the loop over \<open>i = 0 .. 4\<close>.\<close>

definition swap_copy :: "nat \<Rightarrow> state \<Rightarrow> state" where
  "swap_copy i s =
     (let s1 = s\<lparr>buttonWentDownInLastLoop := (buttonWentDownInLastLoop s)[i := buttonWentDown s ! i]\<rparr>;
          s2 = s1\<lparr>buttonWentDown := (buttonWentDown s1)[i := 0]\<rparr>
      in s2\<lparr>buttonStates := (buttonStates s2)[i := debouncedButtonStates s2 ! i]\<rparr>)"

definition swap_buttons :: "state \<Rightarrow> state" where
  "swap_buttons s = foldl (\<lambda>s i. swap_copy i s) s [0..<5]"

text \<open>The part of \<open>swap\<close> between \<open>cli()\<close> and \<open>sei()\<close>: no interrupt can run inside it.\<close>

definition swap_critical :: "state \<Rightarrow> state" where
  "swap_critical s =
     (let s1 = swap_buttons s;
          s2 = s1\<lparr>ticks := interruptTicks s1\<rparr>;
          s3 = s2\<lparr>interruptTicks := 0\<rparr>;
          s4 = s3\<lparr>frontBuffer := backBuffer s3, backBuffer := frontBuffer s3\<rparr>
      in if isTFT s4 then renderText s4 else s4)"

subsection \<open>The timer interrupt\<close>

text \<open>
  One firing of the interrupt sees the input ports \<open>PINC\<close> and \<open>PINB\<close>; \<open>junk\<close> is the
  indeterminate value of the uninitialised local \<open>bstate\<close>, which is what the
  \<open>switch\<close> leaves when \<open>button\<close> matches no case.
\<close>

record isr_input =
  PINC :: byte
  PINB :: byte
  junk :: byte

definition read_pin :: "int16 \<Rightarrow> byte \<Rightarrow> isr_input \<Rightarrow> byte" where
  "read_pin r btn inp =
     (if r = REV00
      then (if btn = 0 then PINC inp AND 2
            else if btn = 1 then PINC inp AND 1
            else if btn = 2 then PINC inp AND 4
            else if btn = 3 then PINC inp AND 8
            else if btn = 4 then PINB inp AND 2
            else junk inp)
      else (if btn = 0 then PINC inp AND 1
            else if btn = 1 then PINC inp AND 8
            else if btn = 2 then PINC inp AND 4
            else if btn = 3 then PINC inp AND 2
            else if btn = 4 then PINB inp AND 2
            else junk inp))"

text \<open>The normalised sample: \<open>bstate ? 0 : 1\<close>.\<close>

definition sample :: "state \<Rightarrow> isr_input \<Rightarrow> byte" where
  "sample s inp = (if read_pin (boardRev s) (button s) inp \<noteq> 0 then 0 else 1)"

text \<open>The debounce step on channel \<open>k\<close> with normalised sample \<open>bstate\<close>.\<close>

definition debounce :: "nat \<Rightarrow> byte \<Rightarrow> state \<Rightarrow> state" where
  "debounce k bstate s =
     (let s1 =
        (if bstate \<noteq> trueButtonStates s ! k
         then (let s' = s\<lparr>buttonDebounceCounters := (buttonDebounceCounters s)[k := 0]\<rparr>
               in if bstate \<noteq> 0 then s'\<lparr>buttonWentDown := (buttonWentDown s')[k := 1]\<rparr> else s')
         else (let s' = s\<lparr>buttonDebounceCounters :=
                            (buttonDebounceCounters s)[k := buttonDebounceCounters s ! k + 1]\<rparr>
               in if buttonDebounceCounters s' ! k = 4
                  then s'\<lparr>buttonDebounceCounters := (buttonDebounceCounters s')[k := 0],
                          debouncedButtonStates := (debouncedButtonStates s')[k := bstate]\<rparr>
                  else s'))
      in s1\<lparr>trueButtonStates := (trueButtonStates s1)[k := bstate]\<rparr>)"

definition isr :: "isr_input \<Rightarrow> state \<Rightarrow> state option" where
  "isr inp s =
     (case refreshNextRow (s\<lparr>interruptTicks := interruptTicks s + 1\<rparr>) of
        None \<Rightarrow> None
      | Some s1 \<Rightarrow>
          if \<not> button s1 < 5 then None
          else let s2 = debounce (unat (button s1)) (sample s1 inp) s1
               in Some (s2\<lparr>button := word_of_nat ((unat (button s2) + 1) mod 5)\<rparr>))"

fun run_isr :: "isr_input list \<Rightarrow> state \<Rightarrow> state option" where
  "run_isr [] s = Some s"
| "run_isr (i # is) s = (case isr i s of None \<Rightarrow> None | Some s' \<Rightarrow> run_isr is s')"

subsection \<open>The wait at the end of the exchange\<close>

text \<open>
  After \<open>sei()\<close>, \<open>swap\<close> spins on \<open>interruptTicks < 2\<close> when the interrupt is running.
  The loop body is empty: the counter moves only when the interrupt fires. The firings
  that are still to come are a list of inputs; the loop tests the counter between
  firings and returns the state and the firings it did not consume. With the counter
  below 2 and no firing left the call never returns (\<open>Blocked\<close>).
\<close>

datatype 'a outcome = Returned 'a | Blocked | Fault

fun swap_wait :: "isr_input list \<Rightarrow> state \<Rightarrow> (state \<times> isr_input list) outcome" where
  "swap_wait [] s = (if \<not> interruptTicks s <s 2 then Returned (s, []) else Blocked)"
| "swap_wait (i # rest) s =
     (if \<not> interruptTicks s <s 2 then Returned (s, i # rest)
      else (case isr i s of None \<Rightarrow> Fault | Some s' \<Rightarrow> swap_wait rest s'))"

definition swap :: "isr_input list \<Rightarrow> state \<Rightarrow> (state \<times> isr_input list) outcome" where
  "swap is s =
     (let s1 = swap_critical s
      in if interruptRunning s1 then swap_wait is s1 else Returned (s1, is))"

section \<open>Traces\<close>

text \<open>
  An application call after \<open>begin\<close>, or one firing of the interrupt. \<open>Swap\<close> is the
  critical section of the exchange; the firings that its closing wait lets through are
  \<open>Tick\<close>s of their own.
\<close>

datatype action =
    Swap
  | Set int16 int16 byte
  | Clear
  | ClearText
  | AddToText string
  | AddToTextInt int16
  | SetRevision int16
  | Refresh
  | Tick isr_input

fun step :: "action \<Rightarrow> state \<Rightarrow> state option" where
  "step Swap s = Some (swap_critical s)"
| "step (Set x y c) s = set_pixel x y c s"
| "step Clear s = clear s"
| "step ClearText s = Some (clearText s)"
| "step (AddToText str) s = Some (addToText str s)"
| "step (AddToTextInt n) s = Some (addToText_int n s)"
| "step (SetRevision r) s = Some (setRevision r s)"
| "step Refresh s = refresh s"
| "step (Tick inp) s = isr inp s"

fun run :: "action list \<Rightarrow> state \<Rightarrow> state option" where
  "run [] s = Some s"
| "run (a # as) s = (case step a s of None \<Rightarrow> None | Some s' \<Rightarrow> run as s')"

fun is_tick :: "action \<Rightarrow> bool" where
  "is_tick (Tick inp) = True"
| "is_tick a = False"


text \<open>Every action but the exchange.\<close>

fun no_exchange :: "action \<Rightarrow> bool" where
  "no_exchange Swap = False"
| "no_exchange a = True"

text \<open>
  The states of a program that calls \<open>begin\<close> once: \<open>begin\<close> on the static initial
  state, then any other application call, and firings of the interrupt once it has been
  set up. A second call of \<open>begin\<close> is not among the actions.
\<close>

inductive reachable :: "state \<Rightarrow> bool" where
  start: "begin_op f cm static_init = Some s \<Longrightarrow> reachable s"
| call: "reachable s \<Longrightarrow> \<not> is_tick a \<Longrightarrow> step a s = Some s' \<Longrightarrow> reachable s'"
| fire: "reachable s \<Longrightarrow> interruptRunning s \<Longrightarrow> isr inp s = Some s' \<Longrightarrow> reachable s'"

text \<open>
  Well-formedness: the arrays have their declared sizes, the pointers name the two
  buffers in some order, the cursors are in range and the text buffers are terminated.
\<close>

definition wf :: "state \<Rightarrow> bool" where
  "wf s \<longleftrightarrow>
     length (bufferA s) = 8 \<and> length (bufferB s) = 8 \<and>
     (backBuffer s = PtrA \<and> frontBuffer s = PtrB \<or> backBuffer s = PtrB \<and> frontBuffer s = PtrA) \<and>
     length (buttonStates s) = 5 \<and> length (debouncedButtonStates s) = 5 \<and>
     length (buttonDebounceCounters s) = 5 \<and> length (buttonWentDown s) = 5 \<and>
     length (buttonWentDownInLastLoop s) = 5 \<and> length (trueButtonStates s) = 5 \<and>
     length (cols s) = 4 \<and>
     0 \<le>s refrow s \<and> refrow s <s 8 \<and> button s < 5 \<and>
     length (txtBuffer s) = 32 \<and> length (prevTxtBuffer s) = 32 \<and>
     strlen (txtBuffer s) < 32 \<and> strlen (prevTxtBuffer s) < 32"

text \<open>The state after \<open>begin(AF_LEDDISPLAY | AF_NOINTERRUPT)\<close>, \<open>begin(AF_LEDDISPLAY)\<close> and \<open>begin(AF_TFTDISPLAY)\<close>.\<close>

definition led_manual :: state where
  "led_manual = static_init\<lparr>boardRev := 1, UP := 1, DOWN := 2, LEFT := 4, RIGHT := 3, FIRE := 5,
     backBuffer := PtrA, frontBuffer := PtrB\<rparr>"

definition led_start :: state where
  "led_start = led_manual\<lparr>interruptRunning := True\<rparr>"

definition tft_start :: state where
  "tft_start = led_start\<lparr>isTFT := True\<rparr>"

definition pins_idle :: isr_input where
  "pins_idle = \<lparr>PINC = 0xff, PINB = 0xff, junk = 0\<rparr>"

definition pins_down :: isr_input where
  "pins_down = \<lparr>PINC = 0, PINB = 0, junk = 0\<rparr>"

text \<open>
  The number of interrupt firings in a trace since its last exchange (all of them when
  there was none).
\<close>

definition firings_since_exchange :: "action list \<Rightarrow> nat" where
  "firings_since_exchange as = length (filter is_tick (takeWhile (\<lambda>a. a \<noteq> Swap) (rev as)))"

text \<open>
  What a run of firings does to one channel: after each firing, the channel's previous
  true state and its debounced state.
\<close>

fun channel_history :: "nat \<Rightarrow> isr_input list \<Rightarrow> state \<Rightarrow> (byte \<times> byte) list" where
  "channel_history k [] s = []"
| "channel_history k (i # is) s =
     (case isr i s of
        None \<Rightarrow> []
      | Some s' \<Rightarrow> (trueButtonStates s' ! k, debouncedButtonStates s' ! k) # channel_history k is s')"

section \<open>Properties\<close>

subsection \<open>Auxiliary facts on words and lists\<close>

lemma replicate_update_same: "(replicate n x)[i := x] = replicate n x"
  by (induction n arbitrary: i) (auto split: nat.splits simp: list_update_code)

lemma bit_three_int: "bit (3::int) m \<longleftrightarrow> m < 2"
proof -
  have h: "(3::int) = mask 2" by (simp add: mask_eq_exp_minus_1)
  show ?thesis by (subst h, simp only: bit_mask_iff) auto
qed

text \<open>Which bits the two assignments of \<open>set\<close> leave in the row word.\<close>

lemma set_row_bit:
  fixes p :: uint16 and c :: byte
  shows "bit ((p AND NOT (push_bit n 3)) OR push_bit n (ucast c)) j \<longleftrightarrow>
         (bit p j \<and> \<not> (n \<le> j \<and> j < n + 2)) \<or> (n \<le> j \<and> j < 16 \<and> bit c (j - n))"
  apply (simp add: bit_simps bit_three_int)
  by (auto dest: bit_imp_le_length)

lemma in_range_unat:
  fixes x :: int16
  assumes "0 \<le>s x" "x <s 8"
  shows "unat x < 8"
proof -
  from assms have a: "0 \<le> sint x" "sint x < 8" by (simp_all add: word_sle_eq word_sless_alt)
  have "uint x = take_bit 16 (sint x)" by (simp add: uint_sint)
  also have "\<dots> = sint x" using a by (simp add: take_bit_int_eq_self)
  finally have "uint x < 8" using a by simp
  then have "nat (uint x) < 8" by linarith
  then show ?thesis by (simp only: unat_eq_nat_uint)
qed

lemma unat_double:
  fixes x :: int16
  assumes "unat x < 8"
  shows "unat (x * 2) = 2 * unat x"
  using assms by (simp add: unat_word_ariths)

lemma colour_bits:
  fixes col :: byte
  assumes "col \<le> 3"
  shows "bit col k \<Longrightarrow> k < 2"
proof -
  have "uint col < 2 ^ 2" using assms by (simp add: word_le_def)
  then have "col AND mask 2 = col" by (simp only: mask_eq_iff)
  then have "bit col k = bit (col AND mask 2) k" by simp
  also have "\<dots> \<longrightarrow> k < 2" by (simp only: bit_and_iff bit_mask_iff) auto
  finally show "bit col k \<Longrightarrow> k < 2" by simp
qed

lemma pixel_of_bit: "bit (pixel_of v x) j \<longleftrightarrow> j < 2 \<and> bit v (2 * x + j)"
  apply (simp add: pixel_of_def bit_simps bit_three_int)
  by (auto simp: add.commute mult.commute dest: bit_imp_le_length)

subsection \<open>Pixel writes\<close>

lemma set_pixel_in_range:
  assumes "0 \<le>s x" "x <s 8" "0 \<le>s y" "y <s 8" "deref s (backBuffer s) = Some b"
  shows "\<exists>s'. set_pixel x y col s = Some s' \<and> backBuffer s' = backBuffer s \<and>
          frontBuffer s' = frontBuffer s \<and>
          deref s' (backBuffer s') =
            Some (b[unat y := (b ! unat y AND NOT (push_bit (2 * unat x) 3))
                                OR push_bit (2 * unat x) (ucast col)])"
proof -
  have x2: "unat (x * 2) = 2 * unat x"
    using assms(1,2) by (simp add: in_range_unat unat_double)
  show ?thesis
    using assms x2 by (cases "backBuffer s") (auto simp: set_pixel_def deref_def store_def Let_def)
qed

text \<open>
  C5 (round-trip pixel encoding). For \<open>x\<close>, \<open>y\<close> in \<open>[0,8)\<close> and a colour in \<open>{0,1,2,3}\<close>,
  \<open>set(x,y,col)\<close> succeeds on the writable buffer, the 2-bit field at bit pair \<open>x\<close> of row
  \<open>y\<close> read back through \<open>getBuffer\<close> is the colour, every other bit of that row word
  is unchanged, and so is every other row.
\<close>

theorem set_round_trip:
  assumes "0 \<le>s x" "x <s 8" "0 \<le>s y" "y <s 8" "col \<le> 3"
    and "deref s (getBuffer s) = Some b" "length b = 8"
  shows "\<exists>s' b'. set_pixel x y col s = Some s' \<and> deref s' (getBuffer s') = Some b' \<and> length b' = 8
      \<and> pixel_of (b' ! unat y) (unat x) = ucast col
      \<and> (\<forall>j. j \<noteq> 2 * unat x \<and> j \<noteq> 2 * unat x + 1 \<longrightarrow> bit (b' ! unat y) j = bit (b ! unat y) j)
      \<and> (\<forall>r. r \<noteq> unat y \<longrightarrow> b' ! r = b ! r)"
proof -
  define n where "n = 2 * unat x"
  define p where "p = (b ! unat y AND NOT (push_bit n 3)) OR push_bit n (ucast col :: uint16)"
  from assms(6) have d: "deref s (backBuffer s) = Some b" by (simp add: getBuffer_def)
  obtain s' where s': "set_pixel x y col s = Some s'" "deref s' (backBuffer s') = Some (b[unat y := p])"
    using set_pixel_in_range[OF assms(1-4) d, of col] by (auto simp: p_def n_def)
  have ux: "unat x < 8" and uy: "unat y < 8"
    using assms(1-4) by (simp_all add: in_range_unat)
  have n14: "n \<le> 14" using ux by (simp add: n_def)
  have row: "b[unat y := p] ! unat y = p" using uy assms(7) by simp
  have field: "pixel_of p (unat x) = ucast col"
  proof (rule bit_eqI)
    fix j
    show "bit (pixel_of p (unat x)) j = bit (ucast col :: uint16) j"
      using n14 colour_bits[OF assms(5), of j]
      by (auto simp: pixel_of_bit p_def set_row_bit n_def[symmetric] bit_ucast_iff
               dest: bit_imp_le_length)
  qed
  have others: "\<forall>j. j \<noteq> n \<and> j \<noteq> n + 1 \<longrightarrow> bit p j = bit (b ! unat y) j"
  proof (intro allI impI)
    fix j assume j: "j \<noteq> n \<and> j \<noteq> n + 1"
    show "bit p j = bit (b ! unat y) j"
      using j colour_bits[OF assms(5), of "j - n"]
      by (auto simp: p_def set_row_bit)
  qed
  show ?thesis
    using s' row field others assms(7)
    by (auto simp: getBuffer_def n_def)
qed

theorem set_round_trip_witness:
  "(0::int16) \<le>s 3 \<and> (3::int16) <s 8 \<and> (0::int16) \<le>s 2 \<and> (2::int16) <s 8 \<and> (2::byte) \<le> 3
   \<and> deref led_start (getBuffer led_start) = Some (replicate 8 0)
   \<and> (\<exists>s' b'. set_pixel 3 2 2 led_start = Some s' \<and> deref s' (getBuffer s') = Some b'
         \<and> pixel_of (b' ! 2) 3 = 2)"
proof -
  have h: "(0::int16) \<le>s 3" "(3::int16) <s 8" "(0::int16) \<le>s 2" "(2::int16) <s 8" "(2::byte) \<le> 3"
    by (simp_all add: word_sle_eq)
  have d: "deref led_start (getBuffer led_start) = Some (replicate 8 0)"
    by code_simp
  have l: "length (replicate 8 (0::uint16)) = 8" by simp
  from set_round_trip[OF h d l] obtain s' b' where
    "set_pixel 3 2 2 led_start = Some s'" "deref s' (getBuffer s') = Some b'"
    "pixel_of (b' ! unat (2::int16)) (unat (3::int16)) = ucast (2::byte)"
    by blast
  then have "\<exists>s' b'. set_pixel 3 2 2 led_start = Some s' \<and> deref s' (getBuffer s') = Some b'
         \<and> pixel_of (b' ! 2) 3 = 2" by simp
  with h d show ?thesis by blast
qed

text \<open>
  C6 (coordinate safety). When \<open>x\<close> or \<open>y\<close> lies outside \<open>[0,8)\<close>, \<open>set(x,y,col)\<close> returns
  normally with the state, and so all eight row words of the writable buffer, unchanged,
  for every colour value and whatever the pointers hold.
\<close>

theorem set_out_of_range_noop:
  "\<not> (0 \<le>s x \<and> x <s 8) \<or> \<not> (0 \<le>s y \<and> y <s 8) \<Longrightarrow> set_pixel x y col s = Some s"
  by (auto simp: set_pixel_def)

theorem set_out_of_range_noop_witness:
  "set_pixel 8 0 3 led_start = Some led_start \<and> set_pixel 0 (- 1) 200 static_init = Some static_init"
  using set_out_of_range_noop[of 8 0 3 led_start] set_out_of_range_noop[of 0 "- 1" 200 static_init]
  by simp

lemma colour_high_bit:
  fixes col :: byte
  assumes "4 \<le> col"
  shows "\<exists>k. 2 \<le> k \<and> k < 8 \<and> bit col k"
proof (rule ccontr)
  assume n: "\<not> (\<exists>k. 2 \<le> k \<and> k < 8 \<and> bit col k)"
  have "col AND mask 2 = col"
  proof (rule bit_eqI)
    fix j
    show "bit (col AND mask 2) j = bit col j"
      using n bit_imp_le_length[of col j] by (cases "j < 2") (auto simp: bit_and_iff bit_mask_iff)
  qed
  then have "uint col < 2 ^ 2" by (simp only: mask_eq_iff)
  with assms show False by (simp add: word_le_def)
qed

text \<open>
  C9, as amended. \<open>set\<close> does not mask the colour: for in-range \<open>x\<close>, \<open>y\<close> and any colour
  byte the row becomes \<open>(row & ~(3 << 2x)) | (col << 2x)\<close> cut to 16 bits. The field of
  pixel \<open>x\<close> reads back \<open>col & 3\<close>, the bits below it are unchanged, and bit \<open>k \<ge> 2\<close> of
  the colour is or-ed into row bit \<open>2x + k\<close> when that is below 16 and dropped otherwise.
  So for \<open>x \<le> 4\<close> every colour \<open>\<ge> 4\<close> sets a bit of a later pixel, and for \<open>x = 7\<close> bits
  0 to 13 of the row are unchanged.
\<close>

theorem set_unmasked_colour:
  assumes "0 \<le>s x" "x <s 8" "0 \<le>s y" "y <s 8"
    and "deref s (getBuffer s) = Some b" "length b = 8"
  shows "\<exists>s' b'. set_pixel x y col s = Some s' \<and> deref s' (getBuffer s') = Some b'
      \<and> pixel_of (b' ! unat y) (unat x) = ucast (col AND 3)
      \<and> (\<forall>j. j < 2 * unat x \<longrightarrow> bit (b' ! unat y) j = bit (b ! unat y) j)
      \<and> (\<forall>j. 2 * unat x + 2 \<le> j \<longrightarrow>
            bit (b' ! unat y) j = (bit (b ! unat y) j \<or> j < 16 \<and> bit col (j - 2 * unat x)))
      \<and> (unat x \<le> 4 \<and> 4 \<le> col \<longrightarrow>
            (\<exists>j. 2 * unat x + 2 \<le> j \<and> j < 16 \<and> bit col (j - 2 * unat x) \<and> bit (b' ! unat y) j))
      \<and> (unat x = 7 \<longrightarrow> (\<forall>j. j < 14 \<longrightarrow> bit (b' ! unat y) j = bit (b ! unat y) j))"
proof -
  define n where "n = 2 * unat x"
  define p where "p = (b ! unat y AND NOT (push_bit n 3)) OR push_bit n (ucast col :: uint16)"
  from assms(5) have d: "deref s (backBuffer s) = Some b" by (simp add: getBuffer_def)
  obtain s' where s': "set_pixel x y col s = Some s'" "deref s' (backBuffer s') = Some (b[unat y := p])"
    using set_pixel_in_range[OF assms(1-4) d, of col] by (auto simp: p_def n_def)
  have ux: "unat x < 8" and uy: "unat y < 8"
    using assms(1-4) by (simp_all add: in_range_unat)
  have n14: "n \<le> 14" using ux by (simp add: n_def)
  have row: "b[unat y := p] ! unat y = p" using uy assms(6) by simp
  have field: "pixel_of p (unat x) = ucast (col AND 3)"
  proof (rule bit_eqI)
    fix j
    show "bit (pixel_of p (unat x)) j = bit (ucast (col AND 3) :: uint16) j"
      using n14
      by (auto simp: pixel_of_bit p_def set_row_bit n_def[symmetric] bit_ucast_iff bit_and_iff
                     bit_three_int
               dest: bit_imp_le_length)
  qed
  have low: "\<forall>j. j < n \<longrightarrow> bit p j = bit (b ! unat y) j"
    by (auto simp: p_def set_row_bit)
  have high: "\<forall>j. n + 2 \<le> j \<longrightarrow> bit p j = (bit (b ! unat y) j \<or> j < 16 \<and> bit col (j - n))"
    by (auto simp: p_def set_row_bit)
  have spill: "unat x \<le> 4 \<and> 4 \<le> col \<longrightarrow> (\<exists>j. n + 2 \<le> j \<and> j < 16 \<and> bit col (j - n) \<and> bit p j)"
  proof
    assume a: "unat x \<le> 4 \<and> 4 \<le> col"
    then obtain k where k: "2 \<le> k" "k < 8" "bit col k" using colour_high_bit by blast
    from a have "n \<le> 8" by (simp add: n_def)
    with k have "n + 2 \<le> n + k \<and> n + k < 16 \<and> bit col (n + k - n) \<and> bit p (n + k)"
      by (simp add: p_def set_row_bit)
    then show "\<exists>j. n + 2 \<le> j \<and> j < 16 \<and> bit col (j - n) \<and> bit p j" by blast
  qed
  have last: "unat x = 7 \<longrightarrow> (\<forall>j. j < 14 \<longrightarrow> bit p j = bit (b ! unat y) j)"
    using low by (simp add: n_def)
  show ?thesis
    using s' row field low high spill last
    by (simp add: getBuffer_def n_def)
qed

theorem set_unmasked_colour_witness:
  "(0::int16) \<le>s 0 \<and> (0::int16) <s 8 \<and> deref led_start (getBuffer led_start) = Some (replicate 8 0)
   \<and> (\<exists>s' b' j. set_pixel 0 0 4 led_start = Some s' \<and> deref s' (getBuffer s') = Some b'
         \<and> 2 \<le> j \<and> j < 16 \<and> bit (b' ! 0) j)"
proof -
  have h: "(0::int16) \<le>s 0" "(0::int16) <s 8" by (simp_all add: word_sle_eq word_sless_alt)
  have d: "deref led_start (getBuffer led_start) = Some (replicate 8 0)"
    by code_simp
  have l: "length (replicate 8 (0::uint16)) = 8" by simp
  from set_unmasked_colour[OF h h d l, of 4] obtain s' b' where
    s': "set_pixel 0 0 4 led_start = Some s'" "deref s' (getBuffer s') = Some b'"
    and sp: "unat (0::int16) \<le> 4 \<and> (4::byte) \<le> 4 \<longrightarrow>
            (\<exists>j. 2 * unat (0::int16) + 2 \<le> j \<and> j < 16 \<and> bit (4::byte) (j - 2 * unat (0::int16))
                 \<and> bit (b' ! unat (0::int16)) j)"
    by blast
  from sp have "\<exists>j. 2 \<le> j \<and> j < 16 \<and> bit (b' ! 0) j"
    by (simp add: numeral_2_eq_2) blast
  then obtain j where "2 \<le> j" "j < 16" "bit (b' ! 0) j" by blast
  with s' have "\<exists>s' b' j. set_pixel 0 0 4 led_start = Some s' \<and> deref s' (getBuffer s') = Some b'
         \<and> 2 \<le> j \<and> j < 16 \<and> bit (b' ! 0) j" by blast
  with h d show ?thesis by blast
qed

text \<open>
  C9 as stated fails at \<open>x = 6\<close>, colour 16: the only set bit of the colour lands on bit
  16 of the row, outside the word, and \<open>set(6, 0, 16)\<close> on the cleared buffer leaves the
  whole state as it was; no bit of pixel 7 is set.
\<close>

theorem set_colour_16_at_6_no_spill:
  "(0::int16) \<le>s 6 \<and> (6::int16) <s 7 \<and> (4::byte) \<le> 16 \<and> getBuffer led_start = PtrA
   \<and> bufferA led_start = [0, 0, 0, 0, 0, 0, 0, 0]
   \<and> set_pixel 6 0 16 led_start = Some led_start"
  by code_simp

subsection \<open>Text overlay\<close>

lemma c_str_take: "take (strlen b) b = c_str b"
  by (simp add: strlen_def c_str_def takeWhile_eq_take[symmetric])

lemma c_str_no_NUL: "NUL \<notin> set (c_str b)"
  by (auto simp: c_str_def dest: set_takeWhileD)

lemma c_str_prefix:
  assumes "NUL \<notin> set xs"
  shows "c_str (xs @ NUL # rest) = xs"
  using assms by (induction xs) (auto simp: c_str_def)

lemma c_str_strcat: "c_str (strcat dst src) = c_str dst @ c_str src"
proof -
  have "strcat dst src = (c_str dst @ c_str src) @ NUL # drop (strlen dst + strlen src + 1) dst"
    by (simp add: strcat_def c_str_take)
  moreover have "NUL \<notin> set (c_str dst @ c_str src)" by (simp add: c_str_no_NUL)
  ultimately show ?thesis using c_str_prefix[of "c_str dst @ c_str src"] by metis
qed

lemma strlen_le: "strlen b \<le> length b"
  by (simp add: strlen_def c_str_def length_takeWhile_le)

lemma length_strcat:
  assumes "strlen dst + strlen src + 1 \<le> length dst"
  shows "length (strcat dst src) = length dst"
  using assms strlen_le[of dst] by (simp add: strcat_def strlen_def)

text \<open>
  C8, as amended. \<open>clearText\<close> and both \<open>addToText\<close> leave the state unchanged when the
  TFT is not active. When it is, \<open>addToText(s)\<close> appends \<open>s\<close> to the pending text
  exactly when \<open>strlen(txtBuffer) + strlen(s) + 1 < 32\<close>, that is, when the result with
  its terminator takes at most 31 of the 32 bytes; otherwise the state is unchanged.
  \<open>clearText\<close> empties the pending text.
\<close>

theorem text_overlay:
  "(\<not> isTFT s \<longrightarrow> clearText s = s \<and> addToText str s = s \<and> addToText_int n s = s)
   \<and> (isTFT s \<and> strlen (txtBuffer s) + strlen str + 1 < MAXTEXTLEN \<longrightarrow>
         c_str (txtBuffer (addToText str s)) = c_str (txtBuffer s) @ c_str str
         \<and> addToText str s = s\<lparr>txtBuffer := strcat (txtBuffer s) str\<rparr>
         \<and> (length (txtBuffer s) = MAXTEXTLEN \<longrightarrow> length (txtBuffer (addToText str s)) = MAXTEXTLEN))
   \<and> (isTFT s \<and> \<not> strlen (txtBuffer s) + strlen str + 1 < MAXTEXTLEN \<longrightarrow> addToText str s = s)
   \<and> (isTFT s \<and> txtBuffer s \<noteq> [] \<longrightarrow> c_str (txtBuffer (clearText s)) = [])"
proof -
  have a: "\<not> isTFT s \<longrightarrow> clearText s = s \<and> addToText str s = s \<and> addToText_int n s = s"
    by (simp add: clearText_def addToText_def addToText_int_def)
  have b: "isTFT s \<and> strlen (txtBuffer s) + strlen str + 1 < MAXTEXTLEN \<longrightarrow>
         c_str (txtBuffer (addToText str s)) = c_str (txtBuffer s) @ c_str str
         \<and> addToText str s = s\<lparr>txtBuffer := strcat (txtBuffer s) str\<rparr>
         \<and> (length (txtBuffer s) = MAXTEXTLEN \<longrightarrow> length (txtBuffer (addToText str s)) = MAXTEXTLEN)"
    by (simp add: addToText_def c_str_strcat length_strcat)
  have c: "isTFT s \<and> \<not> strlen (txtBuffer s) + strlen str + 1 < MAXTEXTLEN \<longrightarrow> addToText str s = s"
    by (simp add: addToText_def)
  have d: "isTFT s \<and> txtBuffer s \<noteq> [] \<longrightarrow> c_str (txtBuffer (clearText s)) = []"
    by (cases "txtBuffer s") (simp_all add: clearText_def c_str_def)
  from a b c d show ?thesis by blast
qed

theorem text_overlay_witness:
  "\<not> isTFT led_start \<and> addToText ''Score: '' led_start = led_start \<and> clearText led_start = led_start
   \<and> isTFT tft_start \<and> c_str (txtBuffer (addToText ''Score: '' tft_start)) = ''Score: ''
   \<and> addToText ''aaaaaaaaaaaaaaaaaaaaaaaaaaaaaaaa'' tft_start = tft_start"
proof -
  have l: "\<not> isTFT led_start" by code_simp
  have t: "isTFT tft_start" by code_simp
  have fits: "strlen (txtBuffer tft_start) + strlen ''Score: '' + 1 < MAXTEXTLEN" by code_simp
  have e: "c_str (txtBuffer tft_start) = []" by code_simp
  have c: "c_str ''Score: '' = ''Score: ''" by code_simp
  have big: "\<not> strlen (txtBuffer tft_start) + strlen ''aaaaaaaaaaaaaaaaaaaaaaaaaaaaaaaa'' + 1 < MAXTEXTLEN"
    by code_simp
  from text_overlay[of led_start "''Score: ''" 0] l
  have 1: "addToText ''Score: '' led_start = led_start \<and> clearText led_start = led_start" by blast
  from text_overlay[of tft_start "''Score: ''" 0] t fits
  have "c_str (txtBuffer (addToText ''Score: '' tft_start)) = c_str (txtBuffer tft_start) @ c_str ''Score: ''"
    by blast
  with e c have 2: "c_str (txtBuffer (addToText ''Score: '' tft_start)) = ''Score: ''" by simp
  from text_overlay[of tft_start "''aaaaaaaaaaaaaaaaaaaaaaaaaaaaaaaa''" 0] t big
  have 3: "addToText ''aaaaaaaaaaaaaaaaaaaaaaaaaaaaaaaa'' tft_start = tft_start" by blast
  from l t 1 2 3 show ?thesis by blast
qed

text \<open>
  C8 as stated fails for an addition that fits exactly: with the pending text empty, a
  string of 31 characters and its terminator fill the 32 bytes, yet the call drops it.
\<close>

theorem addToText_exact_fit_dropped:
  "isTFT tft_start \<and> c_str (txtBuffer tft_start) = []
   \<and> strlen (txtBuffer tft_start) + strlen ''aaaaaaaaaaaaaaaaaaaaaaaaaaaaaaa'' + 1 = MAXTEXTLEN
   \<and> addToText ''aaaaaaaaaaaaaaaaaaaaaaaaaaaaaaa'' tft_start = tft_start"
  by code_simp

subsection \<open>Cursors\<close>

lemma list5: "length xs = 5 \<Longrightarrow> \<exists>a b c d e. xs = [a, b, c, d, e]"
  by (auto simp: eval_nat_numeral length_Suc_conv)

lemma sint_small:
  assumes "0 \<le> k" "k < 100"
  shows "sint (word_of_int k :: int16) = k"
proof -
  have "sint (word_of_int k :: int16) = signed_take_bit 15 k" by (simp add: sint_sbintrunc')
  also have "\<dots> = k" using assms by (intro signed_take_bit_int_eq_self) simp_all
  finally show ?thesis .
qed

lemma sint_succ:
  fixes r :: int16
  assumes "0 \<le> sint r" "sint r < 8"
  shows "sint (r + 1) = sint r + 1"
proof -
  have "r + 1 = word_of_int (sint r + 1)" by simp
  then show ?thesis using assms sint_small[of "sint r + 1"] by simp
qed

lemma refrow_step:
  fixes r :: int16
  assumes "0 \<le>s r" "r <s 8"
  shows "sint (c_rem (r + 1) 8) = (sint r + 1) mod 8"
proof -
  from assms have a: "0 \<le> sint r" "sint r < 8" by (simp_all add: word_sle_eq word_sless_alt)
  have e: "sint (8 :: int16) = 8" by simp
  have "c_rem (r + 1) 8 = word_of_int ((sint r + 1) mod 8)"
    using a by (simp add: c_rem_def sint_succ e)
  moreover have "0 \<le> (sint r + 1) mod 8" "(sint r + 1) mod 8 < 100"
    by (simp_all add: pos_mod_bound[THEN less_trans])
  ultimately show ?thesis by (simp only: sint_small)
qed

lemma refrow_in_range:
  fixes r :: int16
  assumes "0 \<le>s r" "r <s 8"
  shows "0 \<le>s c_rem (r + 1) 8 \<and> c_rem (r + 1) 8 <s 8"
  by (simp add: word_sle_eq word_sless_alt refrow_step[OF assms])

lemma button_step:
  "(word_of_nat ((unat (b::byte) + 1) mod 5) :: byte) < 5"
proof -
  have "(unat b + 1) mod 5 < 5" by simp
  then have "unat (word_of_nat ((unat b + 1) mod 5) :: byte) < 5"
    by (simp only: unat_of_nat) simp
  then show ?thesis by (simp add: word_less_nat_alt)
qed

lemma button_step_unat:
  "unat (word_of_nat ((unat (b::byte) + 1) mod 5) :: byte) = (unat b + 1) mod 5"
proof -
  have "(unat b + 1) mod 5 < 5" by simp
  then have "(unat b + 1) mod 5 < 256" by linarith
  then show ?thesis by (simp only: unat_of_nat) simp
qed

subsection \<open>The exchange copies the button arrays\<close>

lemma swap_buttons_eq:
  assumes "length (buttonWentDownInLastLoop s) = 5" "length (buttonWentDown s) = 5"
    "length (buttonStates s) = 5" "length (debouncedButtonStates s) = 5"
  shows "swap_buttons s = s\<lparr>buttonWentDownInLastLoop := buttonWentDown s,
                            buttonWentDown := [0, 0, 0, 0, 0],
                            buttonStates := debouncedButtonStates s\<rparr>"
proof -
  obtain a1 a2 a3 a4 a5 where a: "buttonWentDownInLastLoop s = [a1, a2, a3, a4, a5]"
    using list5[OF assms(1)] by blast
  obtain b1 b2 b3 b4 b5 where b: "buttonWentDown s = [b1, b2, b3, b4, b5]"
    using list5[OF assms(2)] by blast
  obtain c1 c2 c3 c4 c5 where c: "buttonStates s = [c1, c2, c3, c4, c5]"
    using list5[OF assms(3)] by blast
  obtain d1 d2 d3 d4 d5 where d: "debouncedButtonStates s = [d1, d2, d3, d4, d5]"
    using list5[OF assms(4)] by blast
  have u: "[0..<5] = [0, 1, 2, 3, 4]" by (simp add: upt_rec)
  show ?thesis
    by (simp add: swap_buttons_def u swap_copy_def a b c d)
qed

subsection \<open>Well-formedness is kept by every operation\<close>

lemma wf_deref:
  assumes "wf s"
  shows "\<exists>b f. deref s (backBuffer s) = Some b \<and> length b = 8 \<and>
               deref s (frontBuffer s) = Some f \<and> length f = 8"
  using assms by (auto simp: wf_def deref_def)

lemma array_get_in: "0 \<le> i \<Longrightarrow> i < int n \<Longrightarrow> array_get n xs i = Some (xs ! nat i)"
  by (simp add: array_get_def)

lemma refreshNextRow_Some:
  assumes "wf s"
  shows "\<exists>f. deref s (frontBuffer s) = Some f \<and>
         refreshNextRow s =
           Some (s\<lparr>out := out s @ (if isTFT s then tft_row s (f ! nat (sint (refrow s)))
                                     else led_row s (f ! nat (sint (refrow s)))),
                   refrow := c_rem (refrow s + 1) 8\<rparr>)"
proof -
  from assms have r: "0 \<le> sint (refrow s)" "sint (refrow s) < int 8"
    by (simp_all add: wf_def word_sle_eq word_sless_alt)
  obtain f where f: "deref s (frontBuffer s) = Some f" using wf_deref[OF assms] by blast
  show ?thesis
    by (simp add: refreshNextRow_def f array_get_in[OF r])
qed

lemma wf_out_refrow:
  assumes "wf s" "0 \<le>s r \<and> r <s 8"
  shows "wf (s\<lparr>out := ev, refrow := r\<rparr>)"
  using assms by (simp add: wf_def)

lemma wf_refreshNextRow:
  assumes "wf s"
  shows "\<exists>s'. refreshNextRow s = Some s' \<and> wf s'"
proof -
  from assms have "0 \<le>s refrow s" "refrow s <s 8" by (simp_all add: wf_def)
  then have "0 \<le>s c_rem (refrow s + 1) 8 \<and> c_rem (refrow s + 1) 8 <s 8" by (rule refrow_in_range)
  with refreshNextRow_Some[OF assms] wf_out_refrow[OF assms] show ?thesis by auto
qed

lemma wf_debounce:
  assumes "wf s"
  shows "wf (debounce k v s)"
  using assms by (simp add: wf_def debounce_def Let_def)

lemma wf_ticks: "wf s \<Longrightarrow> wf (s\<lparr>interruptTicks := t\<rparr>)"
  by (simp add: wf_def)

lemma wf_button: "wf s \<Longrightarrow> b < 5 \<Longrightarrow> wf (s\<lparr>button := b\<rparr>)"
  by (simp add: wf_def)

lemma isr_Some:
  assumes "wf s"
  shows "\<exists>s1. refreshNextRow (s\<lparr>interruptTicks := interruptTicks s + 1\<rparr>) = Some s1 \<and> wf s1 \<and>
         isr inp s = Some ((debounce (unat (button s)) (sample s1 inp) s1)
                            \<lparr>button := word_of_nat ((unat (button s) + 1) mod 5)\<rparr>)"
proof -
  obtain s1 where s1: "refreshNextRow (s\<lparr>interruptTicks := interruptTicks s + 1\<rparr>) = Some s1" "wf s1"
    using wf_refreshNextRow[OF wf_ticks[OF assms]] by blast
  from refreshNextRow_Some[OF wf_ticks[OF assms], of "interruptTicks s + 1"] s1(1)
  have b: "button s1 = button s" by auto
  have d: "button (debounce k v s1) = button s1" for k v
    by (simp add: debounce_def Let_def)
  from assms have "button s < 5" by (simp add: wf_def)
  with s1 b d show ?thesis by (simp add: isr_def Let_def)
qed

lemma wf_isr:
  assumes "wf s"
  shows "\<exists>s'. isr inp s = Some s' \<and> wf s'"
  using isr_Some[OF assms, of inp] wf_debounce wf_button button_step by blast

lemma wf_set_pixel:
  assumes "wf s"
  shows "\<exists>s'. set_pixel x y c s = Some s' \<and> wf s'"
  using assms
  by (auto simp: set_pixel_def wf_def deref_def store_def Let_def)

lemma wf_clear:
  assumes "wf s"
  shows "\<exists>s'. clear s = Some s' \<and> wf s'"
  using assms by (auto simp: clear_def wf_def store_def)

lemma wf_setRevision: "wf s \<Longrightarrow> wf (setRevision r s)"
  by (simp add: wf_def setRevision_def)

lemma strlen_update0: "xs \<noteq> [] \<Longrightarrow> strlen (xs[0 := NUL]) = 0"
  by (cases xs) (simp_all add: strlen_def c_str_def)

lemma wf_clearText:
  assumes "wf s"
  shows "wf (clearText s)"
proof -
  from assms have "txtBuffer s \<noteq> []" by (auto simp: wf_def)
  then have "strlen ((txtBuffer s)[0 := NUL]) = 0" by (rule strlen_update0)
  with assms show ?thesis by (auto simp: wf_def clearText_def)
qed

lemma strlen_strcat: "strlen (strcat dst src) = strlen dst + strlen src"
  by (simp add: strlen_def c_str_strcat)

lemma wf_addToText: "wf s \<Longrightarrow> wf (addToText str s)"
  by (auto simp: wf_def addToText_def MAXTEXTLEN_def strlen_strcat length_strcat)

lemma wf_addToText_int: "wf s \<Longrightarrow> wf (addToText_int n s)"
  by (simp add: addToText_int_def wf_addToText)

lemma c_str_strcpy: "c_str (strcpy dst src) = c_str src"
  using c_str_prefix[OF c_str_no_NUL, of src] by (simp add: strcpy_def)

lemma length_strcpy:
  assumes "strlen src < length dst"
  shows "length (strcpy dst src) = length dst"
  using assms by (simp add: strcpy_def strlen_def)

lemma wf_renderText: "wf s \<Longrightarrow> wf (renderText s)"
  by (auto simp: wf_def renderText_def strlen_def c_str_strcpy length_strcpy)

lemma wf_swap_critical:
  assumes "wf s"
  shows "wf (swap_critical s)"
proof -
  from assms have l: "length (buttonWentDownInLastLoop s) = 5" "length (buttonWentDown s) = 5"
    "length (buttonStates s) = 5" "length (debouncedButtonStates s) = 5"
    by (simp_all add: wf_def)
  have w: "wf (s\<lparr>buttonWentDownInLastLoop := buttonWentDown s,
                buttonWentDown := [0, 0, 0, 0, 0],
                buttonStates := debouncedButtonStates s,
                ticks := interruptTicks s, interruptTicks := 0,
                frontBuffer := backBuffer s, backBuffer := frontBuffer s\<rparr>)"
    using assms by (auto simp: wf_def)
  show ?thesis
    using w wf_renderText[OF w]
    by (simp add: swap_critical_def swap_buttons_eq[OF l] Let_def)
qed

lemma repeat_opt_inv:
  assumes "\<And>s. P s \<Longrightarrow> \<exists>s'. f s = Some s' \<and> P s'" "P s"
  shows "\<exists>s'. repeat_opt n f s = Some s' \<and> P s'"
  using assms(2)
proof (induction n arbitrary: s)
  case 0
  then show ?case by simp
next
  case (Suc n)
  from assms(1)[OF Suc.prems] obtain s1 where "f s = Some s1" "P s1" by blast
  with Suc.IH[of s1] show ?case by simp
qed

lemma wf_refresh:
  assumes "wf s"
  shows "\<exists>s'. refresh s = Some s' \<and> wf s'"
proof -
  have "wf (s\<lparr>refrow := 0\<rparr>)" using assms by (simp add: wf_def word_sle_eq word_sless_alt)
  from repeat_opt_inv[of wf refreshNextRow, OF wf_refreshNextRow this, of 8]
  obtain s1 where s1: "repeat_opt 8 refreshNextRow (s\<lparr>refrow := 0\<rparr>) = Some s1" "wf s1" by blast
  have "wf (s1\<lparr>out := ev\<rparr>)" for ev using s1(2) by (simp add: wf_def)
  with s1 show ?thesis by (simp add: refresh_def)
qed

lemma begin_tail_Some:
  assumes "backBuffer s4 = PtrA"
  shows "begin_tail f s4 =
     Some (if f AND AF_NOINTERRUPT = 0
           then setupInterrupt (s4\<lparr>frontBuffer := PtrB, bufferA := replicate 8 0,
                  bufferB := replicate 8 0, txtBuffer := (txtBuffer s4)[0 := NUL],
                  prevTxtBuffer := (prevTxtBuffer s4)[0 := NUL]\<rparr>)
           else s4\<lparr>frontBuffer := PtrB, bufferA := replicate 8 0,
                  bufferB := replicate 8 0, txtBuffer := (txtBuffer s4)[0 := NUL],
                  prevTxtBuffer := (prevTxtBuffer s4)[0 := NUL]\<rparr>)"
  by (simp add: begin_tail_def store_def Let_def assms)

lemma begin_head_pointers:
  assumes "begin_head f cm s0 = Some s4"
  shows "backBuffer s4 = PtrA" "frontBuffer s4 = frontBuffer s0"
    "bufferA s4 = bufferA s0" "bufferB s4 = bufferB s0"
  using assms
  by (auto simp: begin_head_def Let_def setRevision_def split: option.splits if_splits)

lemma begin_head_sizes:
  assumes "begin_head f cm s0 = Some s4"
    and "length (buttonStates s0) = 5" "length (debouncedButtonStates s0) = 5"
     "length (buttonDebounceCounters s0) = 5" "length (buttonWentDown s0) = 5"
     "length (buttonWentDownInLastLoop s0) = 5" "length (trueButtonStates s0) = 5"
     "length (cols s0) = 4" "0 \<le>s refrow s0" "refrow s0 <s 8" "button s0 < 5"
     "length (txtBuffer s0) = 32" "length (prevTxtBuffer s0) = 32"
  shows "length (buttonStates s4) = 5 \<and> length (debouncedButtonStates s4) = 5 \<and>
     length (buttonDebounceCounters s4) = 5 \<and> length (buttonWentDown s4) = 5 \<and>
     length (buttonWentDownInLastLoop s4) = 5 \<and> length (trueButtonStates s4) = 5 \<and>
     length (cols s4) = 4 \<and> 0 \<le>s refrow s4 \<and> refrow s4 <s 8 \<and> button s4 < 5 \<and>
     length (txtBuffer s4) = 32 \<and> length (prevTxtBuffer s4) = 32"
  using assms
  by (auto simp: begin_head_def Let_def setRevision_def split: option.splits if_splits)

lemma wf_begin_op:
  assumes "begin_op f cm s0 = Some s"
    and "length (buttonStates s0) = 5" "length (debouncedButtonStates s0) = 5"
     "length (buttonDebounceCounters s0) = 5" "length (buttonWentDown s0) = 5"
     "length (buttonWentDownInLastLoop s0) = 5" "length (trueButtonStates s0) = 5"
     "length (cols s0) = 4" "0 \<le>s refrow s0" "refrow s0 <s 8" "button s0 < 5"
     "length (txtBuffer s0) = 32" "length (prevTxtBuffer s0) = 32"
  shows "wf s"
proof -
  from assms(1) obtain s4 where h: "begin_head f cm s0 = Some s4" and t: "begin_tail f s4 = Some s"
    by (auto simp: begin_op_def split: option.splits)
  note z = begin_head_sizes[OF h assms(2-13)]
  from z have n: "txtBuffer s4 \<noteq> []" "prevTxtBuffer s4 \<noteq> []" by auto
  have l: "strlen ((txtBuffer s4)[0 := NUL]) = 0" "strlen ((prevTxtBuffer s4)[0 := NUL]) = 0"
    using n by (simp_all add: strlen_update0)
  from t have e: "s = (if f AND AF_NOINTERRUPT = 0
           then setupInterrupt (s4\<lparr>frontBuffer := PtrB, bufferA := replicate 8 0,
                  bufferB := replicate 8 0, txtBuffer := (txtBuffer s4)[0 := NUL],
                  prevTxtBuffer := (prevTxtBuffer s4)[0 := NUL]\<rparr>)
           else s4\<lparr>frontBuffer := PtrB, bufferA := replicate 8 0,
                  bufferB := replicate 8 0, txtBuffer := (txtBuffer s4)[0 := NUL],
                  prevTxtBuffer := (prevTxtBuffer s4)[0 := NUL]\<rparr>)"
    by (simp add: begin_tail_Some[OF begin_head_pointers(1)[OF h]])
  show ?thesis
    using z l begin_head_pointers(1)[OF h]
    by (simp add: e wf_def setupInterrupt_def)
qed

lemma wf_begin_static: "begin_op f cm static_init = Some s \<Longrightarrow> wf s"
  by (erule wf_begin_op) (simp_all add: static_init_def word_sle_eq word_sless_alt)

lemma wf_begin_again:
  assumes "wf s0" "begin_op f cm s0 = Some s"
  shows "wf s"
  using assms(1) by (intro wf_begin_op[OF assms(2)]) (simp_all add: wf_def)

lemma wf_step:
  assumes "wf s" "step a s = Some s'"
  shows "wf s'"
proof (cases a)
  case Swap
  with assms show ?thesis by (auto intro: wf_swap_critical)
next
  case (Set x y c)
  with assms wf_set_pixel[OF assms(1), of x y c] show ?thesis by auto
next
  case Clear
  with assms wf_clear[OF assms(1)] show ?thesis by auto
next
  case ClearText
  with assms show ?thesis by (auto intro: wf_clearText)
next
  case (AddToText str)
  with assms show ?thesis by (auto intro: wf_addToText)
next
  case (AddToTextInt n)
  with assms show ?thesis by (auto intro: wf_addToText_int)
next
  case (SetRevision r)
  with assms show ?thesis by (auto intro: wf_setRevision)
next
  case Refresh
  with assms wf_refresh[OF assms(1)] show ?thesis by auto
next
  case (Tick inp)
  with assms wf_isr[OF assms(1), of inp] show ?thesis by auto
qed

lemma step_total:
  assumes "wf s" "no_exchange a"
  shows "\<exists>s'. step a s = Some s'"
proof (cases a)
  case (Set x y c)
  with wf_set_pixel[OF assms(1), of x y c] show ?thesis by auto
next
  case Clear
  with wf_clear[OF assms(1)] show ?thesis by auto
next
  case Refresh
  with wf_refresh[OF assms(1)] show ?thesis by auto
next
  case (Tick inp)
  with wf_isr[OF assms(1), of inp] show ?thesis by auto
qed (use assms in auto)

lemma reachable_wf: "reachable s \<Longrightarrow> wf s"
proof (induction rule: reachable.induct)
  case (start f cm s)
  then show ?case by (rule wf_begin_static)
next
  case (call s a s')
  then show ?case by (auto intro: wf_step)
next
  case (fire s inp s')
  with wf_isr[of s inp] show ?case by auto
qed

lemma refreshNextRow_frame:
  assumes "refreshNextRow s = Some s'"
  shows "\<exists>ev r. s' = s\<lparr>out := ev, refrow := r\<rparr>"
  using assms by (auto simp: refreshNextRow_def split: option.splits)

lemma repeat_refresh_frame:
  assumes "repeat_opt n refreshNextRow s = Some s'"
  shows "\<exists>ev r. s' = s\<lparr>out := ev, refrow := r\<rparr>"
  using assms
proof (induction n arbitrary: s)
  case 0
  then have "s' = s\<lparr>out := out s, refrow := refrow s\<rparr>" by simp
  then show ?case by blast
next
  case (Suc n)
  then obtain s1 where s1: "refreshNextRow s = Some s1" "repeat_opt n refreshNextRow s1 = Some s'"
    by (auto split: option.splits)
  from refreshNextRow_frame[OF s1(1)] obtain ev r where a: "s1 = s\<lparr>out := ev, refrow := r\<rparr>" by blast
  from Suc.IH[OF s1(2)] obtain ev' r' where b: "s' = s1\<lparr>out := ev', refrow := r'\<rparr>" by blast
  from a b have "s' = s\<lparr>out := ev', refrow := r'\<rparr>" by simp
  then show ?case by blast
qed

lemma refresh_frame:
  assumes "refresh s = Some s'"
  shows "\<exists>ev r. s' = s\<lparr>out := ev, refrow := r\<rparr>"
proof -
  from assms obtain s1 where s1: "repeat_opt 8 refreshNextRow (s\<lparr>refrow := 0\<rparr>) = Some s1"
    and e: "s' = (if isTFT s1 then s1 else s1\<lparr>out := out s1 @ [LatchLow, ColsOut 0xffff, LatchHigh]\<rparr>)"
    by (auto simp: refresh_def split: option.splits)
  from repeat_refresh_frame[OF s1] obtain ev r where a: "s1 = s\<lparr>out := ev, refrow := r\<rparr>" by auto
  show ?thesis
  proof (cases "isTFT s1")
    case True
    with e a show ?thesis by auto
  next
    case False
    with e a have "s' = s\<lparr>out := ev @ [LatchLow, ColsOut 0xffff, LatchHigh], refrow := r\<rparr>" by simp
    then show ?thesis by blast
  qed
qed

lemma isr_frame:
  assumes "isr inp s = Some s'"
  shows "frontBuffer s' = frontBuffer s \<and> backBuffer s' = backBuffer s \<and>
         bufferA s' = bufferA s \<and> bufferB s' = bufferB s \<and>
         buttonStates s' = buttonStates s \<and>
         buttonWentDownInLastLoop s' = buttonWentDownInLastLoop s \<and>
         ticks s' = ticks s \<and> interruptTicks s' = interruptTicks s + 1 \<and>
         isTFT s' = isTFT s \<and> interruptRunning s' = interruptRunning s \<and>
         boardRev s' = boardRev s \<and> txtBuffer s' = txtBuffer s"
proof -
  from assms obtain s1 where s1: "refreshNextRow (s\<lparr>interruptTicks := interruptTicks s + 1\<rparr>) = Some s1"
    and e: "s' = (debounce (unat (button s1)) (sample s1 inp) s1)
                   \<lparr>button := word_of_nat ((unat (button (debounce (unat (button s1)) (sample s1 inp) s1)) + 1) mod 5)\<rparr>"
    by (auto simp: isr_def Let_def split: option.splits if_splits)
  from refreshNextRow_frame[OF s1] obtain ev r where
    a: "s1 = s\<lparr>interruptTicks := interruptTicks s + 1, out := ev, refrow := r\<rparr>" by auto
  show ?thesis
    by (simp add: e debounce_def Let_def a)
qed

text \<open>
  What an action other than the exchange and \<open>begin\<close> leaves alone: the two pointers,
  the contents of the front buffer, the snapshots taken by the last exchange; the live
  tick counter moves by one per firing.
\<close>

lemma draw_frame:
  assumes "wf s" "set_pixel x y c s = Some s' \<or> clear s = Some s'"
  shows "frontBuffer s' = frontBuffer s \<and> backBuffer s' = backBuffer s \<and>
         deref s' (frontBuffer s) = deref s (frontBuffer s) \<and>
         buttonStates s' = buttonStates s \<and>
         buttonWentDownInLastLoop s' = buttonWentDownInLastLoop s \<and>
         buttonWentDown s' = buttonWentDown s \<and>
         ticks s' = ticks s \<and> interruptTicks s' = interruptTicks s"
  using assms
  by (auto simp: wf_def set_pixel_def clear_def deref_def store_def Let_def split: if_splits)

lemma step_frame:
  assumes "wf s" "no_exchange a" "step a s = Some s'"
  shows "frontBuffer s' = frontBuffer s \<and> backBuffer s' = backBuffer s \<and>
         deref s' (frontBuffer s) = deref s (frontBuffer s) \<and>
         buttonStates s' = buttonStates s \<and>
         buttonWentDownInLastLoop s' = buttonWentDownInLastLoop s \<and>
         ticks s' = ticks s \<and>
         interruptTicks s' = interruptTicks s + (if is_tick a then 1 else 0)"
proof (cases a)
  case (Set x y c)
  with assms draw_frame[OF assms(1), of x y c s'] show ?thesis by simp
next
  case Clear
  with assms draw_frame[OF assms(1), of _ _ _ s'] show ?thesis by simp
next
  case ClearText
  with assms show ?thesis by (auto simp: clearText_def deref_def split: bufptr.splits)
next
  case (AddToText str)
  with assms show ?thesis by (auto simp: addToText_def deref_def split: bufptr.splits)
next
  case (AddToTextInt n)
  with assms show ?thesis
    by (auto simp: addToText_int_def addToText_def deref_def split: bufptr.splits)
next
  case (SetRevision r)
  with assms show ?thesis by (auto simp: setRevision_def deref_def split: bufptr.splits)
next
  case Refresh
  with assms refresh_frame[of s s'] show ?thesis by (auto simp: deref_def split: bufptr.splits)
next
  case (Tick inp)
  with assms isr_frame[of inp s s'] show ?thesis by (auto simp: deref_def split: bufptr.splits)
qed (use assms in auto)

lemma run_frame:
  assumes "wf s" "list_all no_exchange as"
  shows "\<exists>s'. run as s = Some s' \<and> wf s' \<and>
         frontBuffer s' = frontBuffer s \<and> backBuffer s' = backBuffer s \<and>
         deref s' (frontBuffer s) = deref s (frontBuffer s) \<and>
         buttonStates s' = buttonStates s \<and>
         buttonWentDownInLastLoop s' = buttonWentDownInLastLoop s \<and>
         ticks s' = ticks s \<and>
         interruptTicks s' = interruptTicks s + word_of_nat (length (filter is_tick as))"
  using assms
proof (induction as arbitrary: s)
  case Nil
  then show ?case by simp
next
  case (Cons a as)
  from Cons.prems have na: "no_exchange a" and nas: "list_all no_exchange as" by simp_all
  from step_total[OF Cons.prems(1) na] obtain s1 where s1: "step a s = Some s1" by blast
  have w1: "wf s1" using wf_step[OF Cons.prems(1) s1] .
  note f1 = step_frame[OF Cons.prems(1) na s1]
  from Cons.IH[OF w1 nas] obtain s' where s': "run as s1 = Some s'" "wf s'"
    "frontBuffer s' = frontBuffer s1" "backBuffer s' = backBuffer s1"
    "deref s' (frontBuffer s1) = deref s1 (frontBuffer s1)"
    "buttonStates s' = buttonStates s1"
    "buttonWentDownInLastLoop s' = buttonWentDownInLastLoop s1"
    "ticks s' = ticks s1"
    "interruptTicks s' = interruptTicks s1 + word_of_nat (length (filter is_tick as))"
    by blast
  have "run (a # as) s = Some s'" using s1 s'(1) by simp
  moreover have "interruptTicks s' = interruptTicks s + word_of_nat (length (filter is_tick (a # as)))"
    using f1 s'(9) by simp
  ultimately show ?case using s' f1 by simp
qed

subsection \<open>The exchange\<close>

lemma renderText_frame:
  "\<exists>p ev. renderText s = s\<lparr>prevTxtBuffer := p, out := ev\<rparr>"
proof (cases "c_str (txtBuffer s) \<noteq> c_str (prevTxtBuffer s)")
  case True
  then show ?thesis by (simp add: renderText_def) blast
next
  case False
  then have "renderText s = s\<lparr>prevTxtBuffer := prevTxtBuffer s, out := out s\<rparr>"
    by (simp add: renderText_def)
  then show ?thesis by blast
qed

lemma swap_critical_fields:
  assumes "wf s"
  shows "frontBuffer (swap_critical s) = backBuffer s"
        "backBuffer (swap_critical s) = frontBuffer s"
        "bufferA (swap_critical s) = bufferA s"
        "bufferB (swap_critical s) = bufferB s"
        "ticks (swap_critical s) = interruptTicks s"
        "interruptTicks (swap_critical s) = 0"
        "buttonStates (swap_critical s) = debouncedButtonStates s"
        "buttonWentDownInLastLoop (swap_critical s) = buttonWentDown s"
        "buttonWentDown (swap_critical s) = [0, 0, 0, 0, 0]"
        "debouncedButtonStates (swap_critical s) = debouncedButtonStates s"
        "trueButtonStates (swap_critical s) = trueButtonStates s"
        "buttonDebounceCounters (swap_critical s) = buttonDebounceCounters s"
        "button (swap_critical s) = button s"
        "refrow (swap_critical s) = refrow s"
        "boardRev (swap_critical s) = boardRev s"
        "interruptRunning (swap_critical s) = interruptRunning s"
        "isTFT (swap_critical s) = isTFT s"
proof -
  from assms have l: "length (buttonWentDownInLastLoop s) = 5" "length (buttonWentDown s) = 5"
    "length (buttonStates s) = 5" "length (debouncedButtonStates s) = 5"
    by (simp_all add: wf_def)
  define s4 where "s4 = s\<lparr>buttonWentDownInLastLoop := buttonWentDown s,
                buttonWentDown := [0, 0, 0, 0, 0],
                buttonStates := debouncedButtonStates s,
                ticks := interruptTicks s, interruptTicks := 0,
                frontBuffer := backBuffer s, backBuffer := frontBuffer s\<rparr>"
  obtain p ev where r: "renderText s4 = s4\<lparr>prevTxtBuffer := p, out := ev\<rparr>"
    using renderText_frame by blast
  have e: "swap_critical s = (if isTFT s then renderText s4 else s4)"
    by (simp add: swap_critical_def swap_buttons_eq[OF l] Let_def s4_def)
  show "frontBuffer (swap_critical s) = backBuffer s"
        "backBuffer (swap_critical s) = frontBuffer s"
        "bufferA (swap_critical s) = bufferA s"
        "bufferB (swap_critical s) = bufferB s"
        "ticks (swap_critical s) = interruptTicks s"
        "interruptTicks (swap_critical s) = 0"
        "buttonStates (swap_critical s) = debouncedButtonStates s"
        "buttonWentDownInLastLoop (swap_critical s) = buttonWentDown s"
        "buttonWentDown (swap_critical s) = [0, 0, 0, 0, 0]"
        "debouncedButtonStates (swap_critical s) = debouncedButtonStates s"
        "trueButtonStates (swap_critical s) = trueButtonStates s"
        "buttonDebounceCounters (swap_critical s) = buttonDebounceCounters s"
        "button (swap_critical s) = button s"
        "refrow (swap_critical s) = refrow s"
        "boardRev (swap_critical s) = boardRev s"
        "interruptRunning (swap_critical s) = interruptRunning s"
        "isTFT (swap_critical s) = isTFT s"
    by (cases "isTFT s"; simp add: e r; simp add: s4_def)+
qed



subsection \<open>Concrete start states\<close>

lemma begin_led_start: "begin_op 1 None static_init = Some led_start"
  by (simp add: begin_op_def begin_head_def begin_tail_def store_def static_init_def led_manual_def led_start_def setRevision_def REV01_def
        AF_TFTDISPLAY_def AF_NOINTERRUPT_def setupInterrupt_def replicate_update_same)

lemma begin_tft_start: "begin_op 2 None static_init = Some tft_start"
  by (simp add: begin_op_def begin_head_def begin_tail_def store_def static_init_def led_manual_def led_start_def tft_start_def
        setRevision_def REV01_def AF_TFTDISPLAY_def AF_NOINTERRUPT_def setupInterrupt_def
        replicate_update_same)

lemma reachable_led_start: "reachable led_start"
  using begin_led_start by (rule reachable.start)



subsection \<open>The tick diagnostic\<close>

text \<open>
  C7 as stated fails: after an exchange and three firings of the interrupt, three
  firings have occurred since the last exchange, and \<open>getTicks\<close> returns 0, the count
  of the interval that the exchange closed.
\<close>

theorem getTicks_not_since_exchange:
  "firings_since_exchange [Swap, Tick pins_idle, Tick pins_idle, Tick pins_idle] = 3
   \<and> map_option getTicks (run [Swap, Tick pins_idle, Tick pins_idle, Tick pins_idle] led_start) = Some 0"
  by code_simp

lemma sint_of_nat_small:
  assumes "n < 32768"
  shows "sint (word_of_nat n :: int16) = int n"
proof -
  have "sint (word_of_int (int n) :: int16) = signed_take_bit 15 (int n)" by (simp only: sint_sbintrunc') simp
  also have "\<dots> = int n" using assms by (intro signed_take_bit_int_eq_self) simp_all
  finally show ?thesis by simp
qed

text \<open>
  C7, as amended. \<open>getTicks\<close> returns the snapshot taken by the most recent exchange:
  the number of interrupt firings between the exchange before it and that exchange, as a
  16-bit value (exact below 32768), and it keeps that value until the next exchange.
  The exchange resets the live counter to zero, and the live counter then counts the
  firings since the exchange.
\<close>

theorem getTicks_snapshot:
  assumes "wf s0" "list_all no_exchange as" "run as (swap_critical s0) = Some s1"
    and "list_all no_exchange bs" "run bs (swap_critical s1) = Some s2"
  shows "getTicks s2 = word_of_nat (length (filter is_tick as))
     \<and> (length (filter is_tick as) < 32768 \<longrightarrow> sint (getTicks s2) = int (length (filter is_tick as)))
     \<and> interruptTicks (swap_critical s1) = 0
     \<and> interruptTicks s2 = word_of_nat (length (filter is_tick bs))"
proof -
  have w0: "wf (swap_critical s0)" using assms(1) by (rule wf_swap_critical)
  from run_frame[OF w0 assms(2)] assms(3)
  have w1: "wf s1" and t1: "interruptTicks s1 = interruptTicks (swap_critical s0) + word_of_nat (length (filter is_tick as))"
    by auto
  have z0: "interruptTicks (swap_critical s0) = 0" using swap_critical_fields(6)[OF assms(1)] .
  have w1': "wf (swap_critical s1)" using w1 by (rule wf_swap_critical)
  from run_frame[OF w1' assms(4)] assms(5)
  have k: "ticks s2 = ticks (swap_critical s1)"
    and t2: "interruptTicks s2 = interruptTicks (swap_critical s1) + word_of_nat (length (filter is_tick bs))"
    by auto
  have z1: "interruptTicks (swap_critical s1) = 0" using swap_critical_fields(6)[OF w1] .
  have g: "getTicks s2 = word_of_nat (length (filter is_tick as))"
    using k swap_critical_fields(5)[OF w1] t1 z0 by (simp add: getTicks_def)
  show ?thesis using g z1 t2 sint_of_nat_small by simp
qed

theorem getTicks_snapshot_witness:
  "wf led_start
   \<and> (\<exists>s1 s2. run [Tick pins_idle, Tick pins_down, Set 1 1 1, Tick pins_idle] (swap_critical led_start) = Some s1
         \<and> run [Tick pins_idle, Clear] (swap_critical s1) = Some s2
         \<and> getTicks s2 = 3 \<and> interruptTicks s2 = 1)"
proof -
  have w: "wf led_start" using reachable_led_start by (rule reachable_wf)
  have na: "list_all no_exchange [Tick pins_idle, Tick pins_down, Set 1 1 1, Tick pins_idle]" by simp
  have nb: "list_all no_exchange [Tick pins_idle, Clear]" by simp
  from run_frame[OF wf_swap_critical[OF w] na] obtain s1 where
    s1: "run [Tick pins_idle, Tick pins_down, Set 1 1 1, Tick pins_idle] (swap_critical led_start) = Some s1"
    and w1: "wf s1" by blast
  from run_frame[OF wf_swap_critical[OF w1] nb] obtain s2 where
    s2: "run [Tick pins_idle, Clear] (swap_critical s1) = Some s2" by blast
  from getTicks_snapshot[OF w na s1 nb s2] have "getTicks s2 = 3 \<and> interruptTicks s2 = 1" by simp
  with w s1 s2 show ?thesis by blast
qed

subsection \<open>Button queries\<close>

lemma button_index_nat: "nat (uint (c::byte) - 1) = unat c - 1"
  by (simp only: unat_eq_nat_uint)

lemma array_get_button:
  "array_get 5 xs (uint (c::byte) - 1) = (if 1 \<le> c \<and> c \<le> 5 then Some (xs ! (unat c - 1)) else None)"
proof -
  have a: "(1 \<le> c) = (1 \<le> uint c)" "(c \<le> 5) = (uint c \<le> 5)" by (simp_all add: word_le_def)
  have "(0 \<le> uint c - 1 \<and> uint c - 1 < int 5) = (1 \<le> c \<and> c \<le> 5)"
    unfolding a by auto
  then show ?thesis unfolding array_get_def button_index_nat by simp
qed

text \<open>
  C10 (button index). \<open>getButton(c)\<close> and \<open>getButtonDown(c)\<close> index 5-element arrays
  at \<open>c - 1\<close> with no check. After an exchange, and until the next one, for
  \<open>1 \<le> c \<le> 5\<close> the read is in bounds and yields what the exchange copied: the
  debounced state and the went-down flag of channel \<open>c - 1\<close> at that moment. For
  \<open>c = 0\<close> and for \<open>c \<ge> 6\<close> the index is outside the array, so a read is defined
  exactly when \<open>1 \<le> c \<le> 5\<close>.
\<close>

theorem button_queries:
  assumes "wf s" "list_all no_exchange as" "run as (swap_critical s) = Some s'"
  shows "(1 \<le> c \<and> c \<le> 5 \<longrightarrow>
           getButton c s' = Some (ucast (debouncedButtonStates s ! (unat c - 1)))
           \<and> getButtonDown c s' = Some (ucast (buttonWentDown s ! (unat c - 1))))
       \<and> (c = 0 \<or> 6 \<le> c \<longrightarrow> getButton c s' = None \<and> getButtonDown c s' = None)
       \<and> (getButton c s' \<noteq> None \<longleftrightarrow> 1 \<le> c \<and> c \<le> 5)
       \<and> (getButtonDown c s' \<noteq> None \<longleftrightarrow> 1 \<le> c \<and> c \<le> 5)
       \<and> length (buttonStates s') = 5 \<and> length (buttonWentDownInLastLoop s') = 5"
proof -
  have w0: "wf (swap_critical s)" using assms(1) by (rule wf_swap_critical)
  from run_frame[OF w0 assms(2)] assms(3)
  have w: "wf s'" and b: "buttonStates s' = buttonStates (swap_critical s)"
    and d: "buttonWentDownInLastLoop s' = buttonWentDownInLastLoop (swap_critical s)"
    by auto
  note sc = swap_critical_fields[OF assms(1)]
  have b': "buttonStates s' = debouncedButtonStates s" using b sc(7) by simp
  have d': "buttonWentDownInLastLoop s' = buttonWentDown s" using d sc(8) by simp
  have out: "c = 0 \<or> 6 \<le> c \<longrightarrow> \<not> (1 \<le> c \<and> c \<le> 5)"
    by (auto simp: word_le_def)
  have l: "length (buttonStates s') = 5" "length (buttonWentDownInLastLoop s') = 5"
    using w by (simp_all add: wf_def)
  have g: "getButton c s' = (if 1 \<le> c \<and> c \<le> 5 then Some (ucast (debouncedButtonStates s ! (unat c - 1))) else None)"
    "getButtonDown c s' = (if 1 \<le> c \<and> c \<le> 5 then Some (ucast (buttonWentDown s ! (unat c - 1))) else None)"
    by (simp_all add: getButton_def getButtonDown_def array_get_button b' d')
  show ?thesis
    using out l unfolding g by auto
qed

theorem button_queries_witness:
  "wf led_start
   \<and> (\<exists>s'. run [Tick pins_down, Set 0 0 1] (swap_critical led_start) = Some s'
         \<and> getButton 1 s' = Some 0 \<and> getButtonDown 5 s' = Some 0
         \<and> getButton 0 s' = None \<and> getButtonDown 6 s' = None \<and> getButton 255 s' = None)"
proof -
  have w: "wf led_start" using reachable_led_start by (rule reachable_wf)
  have n: "list_all no_exchange [Tick pins_down, Set 0 0 1]" by simp
  from run_frame[OF wf_swap_critical[OF w] n] obtain s' where
    s': "run [Tick pins_down, Set 0 0 1] (swap_critical led_start) = Some s'" by blast
  have d: "debouncedButtonStates led_start ! 0 = 0" "buttonWentDown led_start ! 4 = 0" by code_simp+
  have c: "(1::byte) \<le> 1 \<and> (1::byte) \<le> 5" "(1::byte) \<le> 5 \<and> (5::byte) \<le> 5"
    "(6::byte) \<le> 6" "(6::byte) \<le> 255" by simp_all
  from button_queries[OF w n s', of 1] c(1) d(1) have 1: "getButton 1 s' = Some 0" by simp
  from button_queries[OF w n s', of 5] c(2) d(2) have 2: "getButtonDown 5 s' = Some 0" by simp
  from button_queries[OF w n s', of 0] have 3: "getButton 0 s' = None" by simp
  from button_queries[OF w n s', of 6] c(3) have 4: "getButtonDown 6 s' = None" by simp
  from button_queries[OF w n s', of 255] c(4) have 5: "getButton 255 s' = None" by simp
  from w s' 1 2 3 4 5 show ?thesis by blast
qed

subsection \<open>The interrupt, channel by channel\<close>

text \<open>What one firing does to the debounce fields of the channel it samples.\<close>

lemma sample_cong:
  "boardRev s1 = boardRev s \<Longrightarrow> button s1 = button s \<Longrightarrow> sample s1 inp = sample s inp"
  by (simp add: sample_def)

lemma isr_channel:
  assumes "wf s" "isr inp s = Some s'"
  defines "k \<equiv> unat (button s)" and "v \<equiv> sample s inp"
  shows "trueButtonStates s' = (trueButtonStates s)[k := v]"
    "buttonWentDown s' = (if v \<noteq> trueButtonStates s ! k \<and> v \<noteq> 0
                          then (buttonWentDown s)[k := 1] else buttonWentDown s)"
    "buttonDebounceCounters s' =
       (if v \<noteq> trueButtonStates s ! k \<or> buttonDebounceCounters s ! k + 1 = 4
        then (buttonDebounceCounters s)[k := 0]
        else (buttonDebounceCounters s)[k := buttonDebounceCounters s ! k + 1])"
    "debouncedButtonStates s' =
       (if v = trueButtonStates s ! k \<and> buttonDebounceCounters s ! k + 1 = 4
        then (debouncedButtonStates s)[k := v] else debouncedButtonStates s)"
    "button s' = word_of_nat ((k + 1) mod 5)"
    "boardRev s' = boardRev s"
proof -
  from isr_Some[OF assms(1), of inp] obtain s1 where
    s1: "refreshNextRow (s\<lparr>interruptTicks := interruptTicks s + 1\<rparr>) = Some s1"
    and e: "isr inp s = Some ((debounce (unat (button s)) (sample s1 inp) s1)
                            \<lparr>button := word_of_nat ((unat (button s) + 1) mod 5)\<rparr>)"
    by blast
  from refreshNextRow_frame[OF s1] obtain ev r where
    a: "s1 = s\<lparr>interruptTicks := interruptTicks s + 1, out := ev, refrow := r\<rparr>" by auto
  have sv: "sample s1 inp = v" unfolding v_def by (rule sample_cong) (simp_all add: a)
  from assms(1) have kl: "k < length (buttonDebounceCounters s)"
    by (simp add: wf_def k_def word_less_nat_alt)
  have s': "s' = (debounce k v s1)\<lparr>button := word_of_nat ((k + 1) mod 5)\<rparr>"
    using e assms(2) sv by (simp add: k_def)
  show "trueButtonStates s' = (trueButtonStates s)[k := v]"
    by (simp add: s' debounce_def Let_def a)
  show "buttonWentDown s' = (if v \<noteq> trueButtonStates s ! k \<and> v \<noteq> 0
                          then (buttonWentDown s)[k := 1] else buttonWentDown s)"
    by (simp add: s' debounce_def Let_def a)
  show "buttonDebounceCounters s' =
       (if v \<noteq> trueButtonStates s ! k \<or> buttonDebounceCounters s ! k + 1 = 4
        then (buttonDebounceCounters s)[k := 0]
        else (buttonDebounceCounters s)[k := buttonDebounceCounters s ! k + 1])"
    using kl by (simp add: s' debounce_def Let_def a)
  show "debouncedButtonStates s' =
       (if v = trueButtonStates s ! k \<and> buttonDebounceCounters s ! k + 1 = 4
        then (debouncedButtonStates s)[k := v] else debouncedButtonStates s)"
    using kl by (simp add: s' debounce_def Let_def a)
  show "button s' = word_of_nat ((k + 1) mod 5)" by (simp add: s')
  show "boardRev s' = boardRev s" by (simp add: s' debounce_def Let_def a)
qed

lemma quiet_frame:
  assumes "wf s" "no_exchange a" "\<not> is_tick a" "step a s = Some s'"
  shows "buttonWentDown s' = buttonWentDown s"
proof (cases a)
  case (Set x y c)
  with assms draw_frame[OF assms(1), of x y c s'] show ?thesis by simp
next
  case Clear
  with assms draw_frame[OF assms(1), of _ _ _ s'] show ?thesis by simp
next
  case Refresh
  with assms refresh_frame[of s s'] show ?thesis by auto
qed (use assms in \<open>auto simp: clearText_def addToText_def addToText_int_def setRevision_def\<close>)

lemma nth_update_same: "xs ! j = v \<Longrightarrow> xs[k := v] ! j = v"
  by (cases "k < length xs") (auto simp: nth_list_update list_update_beyond)

lemma step_latch:
  assumes "wf s" "no_exchange a" "step a s = Some s'" "buttonWentDown s ! j = 1"
  shows "buttonWentDown s' ! j = 1"
proof (cases "is_tick a")
  case False
  with quiet_frame[OF assms(1,2) _ assms(3)] assms(4) show ?thesis by simp
next
  case True
  then obtain inp where a: "a = Tick inp" by (cases a) auto
  with assms(3) have i: "isr inp s = Some s'" by simp
  show ?thesis
    using assms(4) by (simp add: isr_channel(2)[OF assms(1) i] nth_update_same)
qed

lemma run_latch:
  assumes "wf s" "list_all no_exchange as" "run as s = Some s'" "buttonWentDown s ! j = 1"
  shows "buttonWentDown s' ! j = 1"
  using assms
proof (induction as arbitrary: s)
  case Nil
  then show ?case by simp
next
  case (Cons a as)
  from Cons.prems obtain s1 where s1: "step a s = Some s1" "run as s1 = Some s'"
    by (auto split: option.splits)
  from Cons.prems have n: "no_exchange a" "list_all no_exchange as" by simp_all
  have "buttonWentDown s1 ! j = 1" using step_latch[OF Cons.prems(1) n(1) s1(1) Cons.prems(4)] .
  with Cons.IH[OF wf_step[OF Cons.prems(1) s1(1)] n(2) s1(2)] show ?case by simp
qed

subsection \<open>The wait of the exchange\<close>

lemma run_map_Tick: "run (map Tick is) s = run_isr is s"
  by (induction "is" arbitrary: s) (auto split: option.splits)

lemma ticks_no_exchange: "list_all no_exchange (map Tick is)"
  by (induction "is") auto

lemma ticks_all: "filter is_tick (map Tick is) = map Tick is"
  by (induction "is") auto

lemma swap_wait_Returned:
  assumes "swap_wait is s = Returned (s', rest)"
  shows "\<exists>used. is = used @ rest \<and> run_isr used s = Some s' \<and> \<not> interruptTicks s' <s 2"
  using assms
proof (induction "is" arbitrary: s)
  case Nil
  then show ?case by (auto split: if_splits)
next
  case (Cons i tl)
  show ?case
  proof (cases "interruptTicks s <s 2")
    case False
    with Cons.prems have "s' = s" "rest = i # tl" by simp_all
    with False show ?thesis by (intro exI[of _ "[]"]) simp
  next
    case True
    with Cons.prems obtain s1 where
      c: "isr i s = Some s1" "swap_wait tl s1 = Returned (s', rest)"
      by (auto split: option.splits)
    from Cons.IH[OF c(2)] obtain used where
      u: "tl = used @ rest" "run_isr used s1 = Some s'" "\<not> interruptTicks s' <s 2" by auto
    show ?thesis
      using c u by (intro exI[of _ "i # used"]) simp
  qed
qed

lemma swap_Returned:
  assumes "swap is s = Returned (s', rest)"
  shows "\<exists>used. is = used @ rest \<and> run (map Tick used) (swap_critical s) = Some s'"
proof (cases "interruptRunning (swap_critical s)")
  case True
  with assms have "swap_wait is (swap_critical s) = Returned (s', rest)" by (simp add: swap_def Let_def)
  from swap_wait_Returned[OF this] show ?thesis by (auto simp: run_map_Tick)
next
  case False
  with assms have "s' = swap_critical s" "rest = is" by (simp_all add: swap_def Let_def)
  then show ?thesis by (intro exI[of _ "[]"]) simp
qed

lemma next_button:
  fixes b :: byte
  assumes "b < 5"
  shows "1 \<le> b + 1 \<and> b + 1 \<le> 5 \<and> unat (b + 1) - 1 = unat b"
proof -
  from assms have u: "unat b < 5" by (simp add: word_less_nat_alt)
  have "unat (b + 1) = (unat b + 1) mod 256" by (simp add: unat_word_ariths)
  with u have e: "unat (b + 1) = unat b + 1" by simp
  have "unat (1::byte) \<le> unat (b + 1)" "unat (b + 1) \<le> unat (5::byte)" using u e by simp_all
  then have "1 \<le> b + 1" "b + 1 \<le> 5" by (simp_all only: word_le_nat_alt)
  with e show ?thesis by simp
qed

subsection \<open>Edge latching\<close>

lemma getButtonDown_after_exchange:
  assumes "wf s" "list_all no_exchange as" "run as (swap_critical s) = Some s'"
    and "buttonWentDown s ! unat b = 1" "b < 5"
  shows "getButtonDown (b + 1) s' = Some 1"
proof -
  from run_frame[OF wf_swap_critical[OF assms(1)] assms(2)] assms(3)
  have "buttonWentDownInLastLoop s' = buttonWentDownInLastLoop (swap_critical s)" by auto
  then have "buttonWentDownInLastLoop s' = buttonWentDown s"
    by (simp add: swap_critical_fields(8)[OF assms(1)])
  with next_button[OF assms(5)] assms(4) show ?thesis
    by (simp add: getButtonDown_def array_get_button)
qed

text \<open>
  C3 (edge latching). When a firing samples its channel true while the channel's
  previous true state was false, the firing sets the channel's went-down flag. The flag
  stays set through every later firing and call, whatever is sampled and whatever the
  debounce counter holds, until the next exchange. The exchange copies it into the
  application's array and clears the live flag, so \<open>getButtonDown\<close> for the channel
  (numbered from 1) is 1 when \<open>swap\<close> returns and until the exchange after it.
\<close>

theorem edge_latching:
  assumes "wf s" and "sample s inp \<noteq> 0" and "trueButtonStates s ! unat (button s) = 0"
  shows "\<exists>s1. isr inp s = Some s1 \<and> buttonWentDown s1 ! unat (button s) = 1
     \<and> (\<forall>as s2. list_all no_exchange as \<and> run as s1 = Some s2 \<longrightarrow>
          buttonWentDown s2 ! unat (button s) = 1
          \<and> buttonWentDown (swap_critical s2) ! unat (button s) = 0
          \<and> buttonWentDownInLastLoop (swap_critical s2) ! unat (button s) = 1
          \<and> (\<forall>bs s3. list_all no_exchange bs \<and> run bs (swap_critical s2) = Some s3 \<longrightarrow>
                getButtonDown (button s + 1) s3 = Some 1)
          \<and> (\<forall>is s3 rest. swap is s2 = Returned (s3, rest) \<longrightarrow>
                getButtonDown (button s + 1) s3 = Some 1))"
proof -
  define k where "k = unat (button s)"
  from assms(1) have b5: "button s < 5" by (simp add: wf_def)
  then have k5: "k < 5" by (simp add: k_def word_less_nat_alt)
  from wf_isr[OF assms(1), of inp] obtain s1 where s1: "isr inp s = Some s1" "wf s1" by blast
  from assms(1) have l: "length (buttonWentDown s) = 5" by (simp add: wf_def)
  have d1: "buttonWentDown s1 ! k = 1"
    using assms(2,3) k5 l by (simp add: isr_channel(2)[OF assms(1) s1(1)] k_def[symmetric])
  have later: "buttonWentDown s2 ! k = 1
          \<and> buttonWentDown (swap_critical s2) ! k = 0
          \<and> buttonWentDownInLastLoop (swap_critical s2) ! k = 1
          \<and> (\<forall>bs s3. list_all no_exchange bs \<and> run bs (swap_critical s2) = Some s3 \<longrightarrow>
                getButtonDown (button s + 1) s3 = Some 1)
          \<and> (\<forall>is s3 rest. swap is s2 = Returned (s3, rest) \<longrightarrow>
                getButtonDown (button s + 1) s3 = Some 1)"
    if as: "list_all no_exchange as" "run as s1 = Some s2" for as s2
  proof -
    have d2: "buttonWentDown s2 ! k = 1" using run_latch[OF s1(2) as d1] .
    from run_frame[OF s1(2) as(1)] as(2) have w2: "wf s2" by auto
    have "[0, 0, 0, 0, 0 :: byte] = replicate 5 0" by (simp add: eval_nat_numeral)
    then have z: "buttonWentDown (swap_critical s2) ! k = 0"
      using k5 by (simp only: swap_critical_fields(9)[OF w2] nth_replicate)
    have c: "buttonWentDownInLastLoop (swap_critical s2) ! k = 1"
      using d2 by (simp add: swap_critical_fields(8)[OF w2])
    have q: "getButtonDown (button s + 1) s3 = Some 1"
      if "list_all no_exchange bs" "run bs (swap_critical s2) = Some s3" for bs s3
      using getButtonDown_after_exchange[OF w2 that _ b5] d2 by (simp add: k_def)
    have r: "getButtonDown (button s + 1) s3 = Some 1"
      if "swap is s2 = Returned (s3, rest)" for "is" s3 rest
    proof -
      from swap_Returned[OF that] obtain used where
        "run (map Tick used) (swap_critical s2) = Some s3" by blast
      with q[OF ticks_no_exchange] show ?thesis by blast
    qed
    from d2 z c q r show ?thesis by blast
  qed
  from s1(1) d1 later show ?thesis unfolding k_def by blast
qed

theorem edge_latching_witness:
  "wf led_start \<and> sample led_start pins_down \<noteq> 0
   \<and> trueButtonStates led_start ! unat (button led_start) = 0
   \<and> (\<exists>s1 s2 s3. isr pins_down led_start = Some s1
         \<and> run [Tick pins_idle, Tick pins_idle, Tick pins_idle, Tick pins_idle, Tick pins_idle] s1 = Some s2
         \<and> buttonWentDown s2 ! 0 = 1
         \<and> run [Tick pins_idle, Tick pins_idle] (swap_critical s2) = Some s3
         \<and> getButtonDown 1 s3 = Some 1)"
proof -
  have w: "wf led_start" using reachable_led_start by (rule reachable_wf)
  have v: "sample led_start pins_down \<noteq> 0" by code_simp
  have t: "trueButtonStates led_start ! unat (button led_start) = 0" by code_simp
  have b: "button led_start = 0" by code_simp
  have na: "list_all no_exchange [Tick pins_idle, Tick pins_idle, Tick pins_idle, Tick pins_idle, Tick pins_idle]"
    by simp
  have nb: "list_all no_exchange [Tick pins_idle, Tick pins_idle]" by simp
  from edge_latching[OF w v t] obtain s1 where
    s1: "isr pins_down led_start = Some s1"
    and l: "\<forall>as s2. list_all no_exchange as \<and> run as s1 = Some s2 \<longrightarrow>
          buttonWentDown s2 ! unat (button led_start) = 1
          \<and> (\<forall>bs s3. list_all no_exchange bs \<and> run bs (swap_critical s2) = Some s3 \<longrightarrow>
                getButtonDown (button led_start + 1) s3 = Some 1)"
    by blast
  have w1: "wf s1" using wf_isr[OF w, of pins_down] s1 by simp
  from run_frame[OF w1 na] obtain s2 where
    s2: "run [Tick pins_idle, Tick pins_idle, Tick pins_idle, Tick pins_idle, Tick pins_idle] s1 = Some s2"
    and w2: "wf s2" by blast
  from run_frame[OF wf_swap_critical[OF w2] nb] obtain s3 where
    s3: "run [Tick pins_idle, Tick pins_idle] (swap_critical s2) = Some s3" by blast
  from l na s2 have d: "buttonWentDown s2 ! unat (button led_start) = 1"
    and q: "\<forall>bs s3. list_all no_exchange bs \<and> run bs (swap_critical s2) = Some s3 \<longrightarrow>
                getButtonDown (button led_start + 1) s3 = Some 1"
    by blast+
  from q nb s3 have g: "getButtonDown (button led_start + 1) s3 = Some 1" by blast
  from d g have "buttonWentDown s2 ! 0 = 1" "getButtonDown 1 s3 = Some 1" by (simp_all add: b)
  with w v t s1 s2 s3 show ?thesis by blast
qed

subsection \<open>Firings during the wait\<close>

lemma isr_scan:
  assumes "wf t" "isr inp t = Some t'"
  shows "\<exists>f. deref t (frontBuffer t) = Some f \<and>
           out t' = out t @ (if isTFT t then tft_row t (f ! nat (sint (refrow t)))
                             else led_row t (f ! nat (sint (refrow t)))) \<and>
           refrow t' = c_rem (refrow t + 1) 8"
proof -
  let ?t = "t\<lparr>interruptTicks := interruptTicks t + 1\<rparr>"
  from isr_Some[OF assms(1), of inp] assms(2) obtain s1 where
    s1: "refreshNextRow ?t = Some s1"
    and e: "t' = (debounce (unat (button t)) (sample s1 inp) s1)
                   \<lparr>button := word_of_nat ((unat (button t) + 1) mod 5)\<rparr>"
    by auto
  from refreshNextRow_Some[OF wf_ticks[OF assms(1)], of "interruptTicks t + 1"] s1
  obtain f where f: "deref ?t (frontBuffer ?t) = Some f"
    and r: "s1 = ?t\<lparr>out := out ?t @ (if isTFT ?t then tft_row ?t (f ! nat (sint (refrow ?t)))
                                     else led_row ?t (f ! nat (sint (refrow ?t)))),
                   refrow := c_rem (refrow ?t + 1) 8\<rparr>"
    by auto
  have d: "deref t (frontBuffer t) = Some f" using f by (simp add: deref_def split: bufptr.splits)
  have o: "out t' = out s1" "refrow t' = refrow s1" by (simp_all add: e debounce_def Let_def)
  show ?thesis
    using d by (simp add: o r tft_row_def led_row_def)
qed

lemma run_isr_wf:
  assumes "wf s"
  shows "\<exists>s'. run_isr is s = Some s' \<and> wf s' \<and>
           frontBuffer s' = frontBuffer s \<and> deref s' (frontBuffer s) = deref s (frontBuffer s) \<and>
           interruptTicks s' = interruptTicks s + word_of_nat (length is)"
proof -
  from run_frame[OF assms ticks_no_exchange, of "is"]
  show ?thesis by (auto simp: run_map_Tick ticks_all)
qed

lemma run_isr_refrow:
  assumes "wf s" "run_isr is s = Some s'"
  shows "sint (refrow s') = (sint (refrow s) + int (length is)) mod 8"
  using assms
proof (induction "is" arbitrary: s)
  case Nil
  then have "0 \<le> sint (refrow s)" "sint (refrow s) < 8"
    by (simp_all add: wf_def word_sle_eq word_sless_alt)
  with Nil show ?case by simp
next
  case (Cons i tl)
  from Cons.prems obtain s1 where s1: "isr i s = Some s1" "run_isr tl s1 = Some s'"
    by (auto split: option.splits)
  have w1: "wf s1" using wf_isr[OF Cons.prems(1), of i] s1(1) by simp
  from Cons.prems(1) have r: "0 \<le>s refrow s" "refrow s <s 8" by (simp_all add: wf_def)
  from isr_scan[OF Cons.prems(1) s1(1)] have "refrow s1 = c_rem (refrow s + 1) 8" by blast
  then have "sint (refrow s1) = (sint (refrow s) + 1) mod 8" by (simp add: refrow_step[OF r])
  with Cons.IH[OF w1 s1(2)] show ?case by (simp add: mod_add_left_eq add.assoc)
qed

lemma run_isr_take:
  assumes "run_isr is s = Some s'"
  shows "\<exists>t. run_isr (take n is) s = Some t"
  using assms
proof (induction "is" arbitrary: s n)
  case Nil
  then show ?case by simp
next
  case (Cons i tl)
  then show ?case by (cases n) (auto split: option.splits)
qed

lemma run_isr_snoc:
  "run_isr (is @ [i]) s = (case run_isr is s of None \<Rightarrow> None | Some t \<Rightarrow> isr i t)"
  by (induction "is" arbitrary: s) (auto split: option.splits)

lemma ticks_values:
  "(0::int16) <s 2" "(1::int16) <s 2" "\<not> (2::int16) <s 2"
  by (simp_all add: word_sless_alt)

lemma swap_wait_two:
  assumes "wf s" "interruptTicks s = 0"
  shows "swap_wait (i1 # i2 # rest) s = (case run_isr [i1, i2] s of None \<Rightarrow> Fault | Some s' \<Rightarrow> Returned (s', rest))"
    and "\<exists>s'. run_isr [i1, i2] s = Some s'"
    and "swap_wait [] s = Blocked" and "swap_wait [i1] s = Blocked"
proof -
  from run_isr_wf[OF assms(1), of "[i1]"] obtain s1 where
    s1: "isr i1 s = Some s1" "wf s1" "interruptTicks s1 = 1"
    by (auto simp: assms(2) split: option.splits)
  from run_isr_wf[OF s1(2), of "[i2]"] obtain s2 where
    s2: "isr i2 s1 = Some s2" "interruptTicks s2 = 2"
    by (auto simp: s1(3) split: option.splits)
  show "swap_wait (i1 # i2 # rest) s = (case run_isr [i1, i2] s of None \<Rightarrow> Fault | Some s' \<Rightarrow> Returned (s', rest))"
    using s1 s2 assms(2) by (cases rest) (simp_all add: ticks_values)
  show "\<exists>s'. run_isr [i1, i2] s = Some s'" using s1 s2 by simp
  show "swap_wait [] s = Blocked" using assms(2) by (simp add: ticks_values)
  show "swap_wait [i1] s = Blocked" using assms(2) s1 by (simp add: ticks_values)
qed

lemma waited_two:
  fixes n :: nat
  assumes "\<not> (word_of_nat n :: int16) <s 2"
  shows "2 \<le> n"
proof (rule ccontr)
  assume "\<not> 2 \<le> n"
  then have "n = 0 \<or> n = 1" by arith
  with assms show False by (auto simp: ticks_values)
qed

subsection \<open>Exchange synchronisation\<close>

text \<open>
  C2 (exchange synchronisation). With the interrupt running, whenever \<open>swap\<close> returns
  it has let at least two firings through since the pointer exchange and the live
  counter is at least 2; through all of them the front buffer is the buffer that was
  the back buffer before the call, with its rows unchanged, the cursor has advanced by
  one row per firing, and each firing has sent the row under the cursor of that buffer to
  the display. \<open>swap\<close> does return once two firings have come, and is blocked as long
  as fewer than two come. With the interrupt not running \<open>swap\<close> returns at once.
\<close>

theorem exchange_sync:
  assumes "wf s"
  shows
   "(interruptRunning s \<longrightarrow>
       (\<forall>is s' rest. swap is s = Returned (s', rest) \<longrightarrow>
          (\<exists>used. is = used @ rest \<and> 2 \<le> length used
             \<and> run_isr used (swap_critical s) = Some s'
             \<and> \<not> interruptTicks s' <s 2
             \<and> (\<forall>n \<le> length used. \<exists>t. run_isr (take n used) (swap_critical s) = Some t
                    \<and> frontBuffer t = backBuffer s
                    \<and> deref t (frontBuffer t) = deref s (backBuffer s)
                    \<and> sint (refrow t) = (sint (refrow s) + int n) mod 8)
             \<and> (\<forall>n < length used. \<exists>t t' f. run_isr (take n used) (swap_critical s) = Some t
                    \<and> isr (used ! n) t = Some t' \<and> deref s (backBuffer s) = Some f
                    \<and> out t' = out t @ (if isTFT t then tft_row t (f ! nat (sint (refrow t)))
                                         else led_row t (f ! nat (sint (refrow t)))))))
       \<and> (\<forall>is. 2 \<le> length is \<longrightarrow> (\<exists>s'. swap is s = Returned (s', drop 2 is)))
       \<and> (\<forall>is. length is < 2 \<longrightarrow> swap is s = Blocked))
    \<and> (\<not> interruptRunning s \<longrightarrow> (\<forall>is. swap is s = Returned (swap_critical s, is)))"
proof -
  define sc where "sc = swap_critical s"
  have wsc: "wf sc" unfolding sc_def using assms by (rule wf_swap_critical)
  note f = swap_critical_fields[OF assms, folded sc_def]
  have z: "interruptTicks sc = 0" using f(6) .
  have fb: "frontBuffer sc = backBuffer s" using f(1) .
  have db: "deref sc (frontBuffer sc) = deref s (backBuffer s)"
    using f(1-4) by (simp add: deref_def split: bufptr.splits)
  have rr: "refrow sc = refrow s" using f(14) .
  have ir: "interruptRunning sc = interruptRunning s" using f(16) .
  have prefix: "\<exists>t. run_isr (take n used) sc = Some t \<and> wf t
                    \<and> frontBuffer t = backBuffer s
                    \<and> deref t (frontBuffer t) = deref s (backBuffer s)
                    \<and> sint (refrow t) = (sint (refrow s) + int n) mod 8"
    if "n \<le> length used" for n used
  proof -
    from run_isr_wf[OF wsc, of "take n used"] obtain t where
      t: "run_isr (take n used) sc = Some t" "wf t" "frontBuffer t = frontBuffer sc"
         "deref t (frontBuffer sc) = deref sc (frontBuffer sc)" by blast
    from run_isr_refrow[OF wsc t(1)] that
    have "sint (refrow t) = (sint (refrow s) + int n) mod 8" by (simp add: rr min_def)
    with t fb db show ?thesis by simp
  qed
  have ret: "\<exists>used. is = used @ rest \<and> 2 \<le> length used
             \<and> run_isr used sc = Some s'
             \<and> \<not> interruptTicks s' <s 2
             \<and> (\<forall>n \<le> length used. \<exists>t. run_isr (take n used) sc = Some t
                    \<and> frontBuffer t = backBuffer s
                    \<and> deref t (frontBuffer t) = deref s (backBuffer s)
                    \<and> sint (refrow t) = (sint (refrow s) + int n) mod 8)
             \<and> (\<forall>n < length used. \<exists>t t' f. run_isr (take n used) sc = Some t
                    \<and> isr (used ! n) t = Some t' \<and> deref s (backBuffer s) = Some f
                    \<and> out t' = out t @ (if isTFT t then tft_row t (f ! nat (sint (refrow t)))
                                         else led_row t (f ! nat (sint (refrow t)))))"
    if run: "interruptRunning s" and sw: "swap is s = Returned (s', rest)" for "is" s' rest
  proof -
    from sw run ir have "swap_wait is sc = Returned (s', rest)"
      by (simp add: swap_def Let_def sc_def)
    from swap_wait_Returned[OF this] obtain used where
      u: "is = used @ rest" "run_isr used sc = Some s'" "\<not> interruptTicks s' <s 2" by blast
    from run_isr_wf[OF wsc, of used] u(2) z
    have "interruptTicks s' = word_of_nat (length used)" by simp
    with u(3) have two: "2 \<le> length used" by (simp add: waited_two)
    have p1: "\<forall>n \<le> length used. \<exists>t. run_isr (take n used) sc = Some t
                    \<and> frontBuffer t = backBuffer s
                    \<and> deref t (frontBuffer t) = deref s (backBuffer s)
                    \<and> sint (refrow t) = (sint (refrow s) + int n) mod 8"
      using prefix by blast
    have p2: "\<forall>n < length used. \<exists>t t' f. run_isr (take n used) sc = Some t
                    \<and> isr (used ! n) t = Some t' \<and> deref s (backBuffer s) = Some f
                    \<and> out t' = out t @ (if isTFT t then tft_row t (f ! nat (sint (refrow t)))
                                         else led_row t (f ! nat (sint (refrow t))))"
    proof (intro allI impI)
      fix n assume n: "n < length used"
      from prefix[of n used] n obtain t where
        t: "run_isr (take n used) sc = Some t" "wf t"
           "deref t (frontBuffer t) = deref s (backBuffer s)" by auto
      from wf_isr[OF t(2), of "used ! n"] obtain t' where t': "isr (used ! n) t = Some t'" by blast
      from isr_scan[OF t(2) t'] obtain f where
        f: "deref t (frontBuffer t) = Some f"
           "out t' = out t @ (if isTFT t then tft_row t (f ! nat (sint (refrow t)))
                              else led_row t (f ! nat (sint (refrow t))))" by blast
      from f(1) t(3) have "deref s (backBuffer s) = Some f" by simp
      with t(1) t' f(2)
      show "\<exists>t t' f. run_isr (take n used) sc = Some t
                    \<and> isr (used ! n) t = Some t' \<and> deref s (backBuffer s) = Some f
                    \<and> out t' = out t @ (if isTFT t then tft_row t (f ! nat (sint (refrow t)))
                                         else led_row t (f ! nat (sint (refrow t))))" by blast
    qed
    from u two p1 p2 show ?thesis by blast
  qed
  have prog: "\<exists>s'. swap is s = Returned (s', drop 2 is)"
    if run: "interruptRunning s" and len: "2 \<le> length is" for "is"
  proof -
    from len obtain i1 i2 rest where i: "is = i1 # i2 # rest"
      by (cases "is"; cases "tl is") auto
    from swap_wait_two(2)[OF wsc z, of i1 i2] obtain s' where "run_isr [i1, i2] sc = Some s'" by blast
    with swap_wait_two(1)[OF wsc z, of i1 i2 rest]
    have "swap_wait is sc = Returned (s', drop 2 is)" by (simp add: i)
    with run ir show ?thesis by (simp add: swap_def Let_def sc_def)
  qed
  have blocked: "swap is s = Blocked"
    if run: "interruptRunning s" and len: "length is < 2" for "is"
  proof -
    from len have "is = [] \<or> (\<exists>i. is = [i])" by (cases "is"; cases "tl is") auto
    with swap_wait_two(3,4)[OF wsc z] have "swap_wait is sc = Blocked" by auto
    with run ir show ?thesis by (simp add: swap_def Let_def sc_def)
  qed
  have idle: "swap is s = Returned (swap_critical s, is)" if "\<not> interruptRunning s" for "is"
    using that ir by (simp add: swap_def Let_def sc_def)
  from ret prog blocked idle show ?thesis unfolding sc_def by blast
qed

lemma begin_led_manual: "begin_op 5 None static_init = Some led_manual"
  by (simp add: begin_op_def begin_head_def begin_tail_def store_def static_init_def led_manual_def setRevision_def REV01_def
        AF_TFTDISPLAY_def AF_NOINTERRUPT_def setupInterrupt_def replicate_update_same)

lemma wf_led_manual: "wf led_manual"
  using begin_led_manual by (rule wf_begin_static)

theorem exchange_sync_witness:
  "wf led_start \<and> interruptRunning led_start
   \<and> (\<exists>s'. swap [pins_idle, pins_down, pins_idle] led_start = Returned (s', [pins_idle])
          \<and> \<not> interruptTicks s' <s 2)
   \<and> swap [pins_idle] led_start = Blocked
   \<and> wf led_manual \<and> \<not> interruptRunning led_manual
   \<and> swap [pins_idle] led_manual = Returned (swap_critical led_manual, [pins_idle])"
proof -
  have w: "wf led_start" using reachable_led_start by (rule reachable_wf)
  have r: "interruptRunning led_start" by code_simp
  have n: "\<not> interruptRunning led_manual" by code_simp
  note a = exchange_sync[OF w]
  note b = exchange_sync[OF wf_led_manual]
  from a r have prog: "\<forall>is. 2 \<le> length is \<longrightarrow> (\<exists>s'. swap is led_start = Returned (s', drop 2 is))"
    by blast
  have "2 \<le> length [pins_idle, pins_down, pins_idle]" by simp
  with prog have "\<exists>s'. swap [pins_idle, pins_down, pins_idle] led_start
                   = Returned (s', drop 2 [pins_idle, pins_down, pins_idle])"
    by blast
  then obtain s' where s': "swap [pins_idle, pins_down, pins_idle] led_start = Returned (s', [pins_idle])"
    by auto
  with a r have "\<exists>used. [pins_idle, pins_down, pins_idle] = used @ [pins_idle] \<and> 2 \<le> length used
             \<and> run_isr used (swap_critical led_start) = Some s' \<and> \<not> interruptTicks s' <s 2"
    by blast
  then have t: "\<not> interruptTicks s' <s 2" by blast
  from a r have blk: "\<forall>is. length is < 2 \<longrightarrow> swap is led_start = Blocked" by blast
  have "length [pins_idle] < 2" by simp
  with blk have bl: "swap [pins_idle] led_start = Blocked" by blast
  from b n have i: "swap [pins_idle] led_manual = Returned (swap_critical led_manual, [pins_idle])"
    by blast
  from w r s' t bl wf_led_manual n i show ?thesis by blast
qed

subsection \<open>Debouncing\<close>

lemma counter_step:
  fixes c :: byte
  assumes "unat c < 4"
  shows "(c + 1 = 4) = (unat c = 3)" "unat (c + 1) = unat c + 1"
proof -
  have "unat (c + 1) = (unat c + 1) mod 256" by (simp add: unat_word_ariths)
  with assms show e: "unat (c + 1) = unat c + 1" by simp
  have "(c + 1 = 4) = (unat (c + 1) = unat (4::byte))" by (simp only: word_unat_eq_iff)
  with e show "(c + 1 = 4) = (unat c = 3)" by simp
qed

lemma isr_at_channel:
  assumes "wf t" "isr inp t = Some t'" "unat (button t) = k" "sample t inp = v"
    and "trueButtonStates t ! k = v" "unat (buttonDebounceCounters t ! k) = c" "c < 4"
  shows "trueButtonStates t' ! k = v"
    "unat (buttonDebounceCounters t' ! k) = (c + 1) mod 4"
    "debouncedButtonStates t' ! k = (if c = 3 then v else debouncedButtonStates t ! k)"
    "unat (button t') = (k + 1) mod 5"
proof -
  from assms(1,3) have k5: "k < 5" by (auto simp: wf_def word_less_nat_alt)
  from assms(1) have l: "length (trueButtonStates t) = 5" "length (buttonDebounceCounters t) = 5"
    "length (debouncedButtonStates t) = 5" by (simp_all add: wf_def)
  note ch = isr_channel[OF assms(1,2), unfolded assms(3,4)]
  note cs = counter_step[of "buttonDebounceCounters t ! k", unfolded assms(6), OF assms(7)]
  show "trueButtonStates t' ! k = v" using k5 l by (simp add: ch(1))
  show "unat (buttonDebounceCounters t' ! k) = (c + 1) mod 4"
    using k5 l assms(5,7) by (auto simp: ch(3) cs)
  show "debouncedButtonStates t' ! k = (if c = 3 then v else debouncedButtonStates t ! k)"
    using k5 l assms(5) by (simp add: ch(4) cs)
  show "unat (button t') = (k + 1) mod 5"
    by (simp only: ch(5) button_step_unat[of "button t", unfolded assms(3)])
qed

lemma isr_change:
  assumes "wf t" "isr inp t = Some t'" "unat (button t) = k" "sample t inp = v"
    and "trueButtonStates t ! k \<noteq> v"
  shows "trueButtonStates t' ! k = v"
    "unat (buttonDebounceCounters t' ! k) = 0"
    "debouncedButtonStates t' ! k = debouncedButtonStates t ! k"
    "unat (button t') = (k + 1) mod 5"
proof -
  from assms(1,3) have k5: "k < 5" by (auto simp: wf_def word_less_nat_alt)
  from assms(1) have l: "length (trueButtonStates t) = 5" "length (buttonDebounceCounters t) = 5"
    "length (debouncedButtonStates t) = 5" by (simp_all add: wf_def)
  note ch = isr_channel[OF assms(1,2), unfolded assms(3,4)]
  show "trueButtonStates t' ! k = v" using k5 l by (simp add: ch(1))
  show "unat (buttonDebounceCounters t' ! k) = 0" using k5 l assms(5) by (simp add: ch(3))
  show "debouncedButtonStates t' ! k = debouncedButtonStates t ! k" using assms(5) by (simp add: ch(4))
  show "unat (button t') = (k + 1) mod 5"
    by (simp only: ch(5) button_step_unat[of "button t", unfolded assms(3)])
qed

lemma isr_other_channel:
  assumes "wf t" "isr inp t = Some t'" "unat (button t) \<noteq> k"
  shows "trueButtonStates t' ! k = trueButtonStates t ! k"
    "buttonDebounceCounters t' ! k = buttonDebounceCounters t ! k"
    "debouncedButtonStates t' ! k = debouncedButtonStates t ! k"
    "unat (button t') = (unat (button t) + 1) mod 5"
proof -
  note ch = isr_channel[OF assms(1,2)]
  show "trueButtonStates t' ! k = trueButtonStates t ! k" using assms(3) by (simp add: ch(1))
  show "buttonDebounceCounters t' ! k = buttonDebounceCounters t ! k"
    using assms(3) by (simp add: ch(3))
  show "debouncedButtonStates t' ! k = debouncedButtonStates t ! k"
    using assms(3) by (simp add: ch(4))
  show "unat (button t') = (unat (button t) + 1) mod 5"
    by (simp only: ch(5) button_step_unat)
qed

lemma round_arith:
  fixes k m :: nat
  assumes "k < 5"
  shows "Suc m mod 5 = 0 \<Longrightarrow> (k + Suc m) mod 5 = k \<and> Suc m div 5 = m div 5 + 1"
    and "Suc m mod 5 \<noteq> 0 \<Longrightarrow> (k + Suc m) mod 5 \<noteq> k \<and> Suc m div 5 = m div 5"
    and "((k + Suc m) mod 5 + 1) mod 5 = (k + Suc (Suc m)) mod 5"
proof -
  define j where "j = Suc m mod 5"
  have s: "(k + Suc m) mod 5 = (k + j) mod 5" unfolding j_def by (rule mod_add_right_eq[symmetric])
  have j5: "j < 5" by (simp add: j_def)
  show "Suc m mod 5 = 0 \<Longrightarrow> (k + Suc m) mod 5 = k \<and> Suc m div 5 = m div 5 + 1"
  proof -
    assume a: "Suc m mod 5 = 0"
    then have "j = 0" by (simp add: j_def)
    with s assms have "(k + Suc m) mod 5 = k" by (simp only:) simp
    moreover from a have "Suc m div 5 = m div 5 + 1" by (simp add: div_Suc)
    ultimately show ?thesis by blast
  qed
  show "Suc m mod 5 \<noteq> 0 \<Longrightarrow> (k + Suc m) mod 5 \<noteq> k \<and> Suc m div 5 = m div 5"
  proof -
    assume a: "Suc m mod 5 \<noteq> 0"
    then have "j \<noteq> 0" by (simp add: j_def)
    with assms j5 have "(k + j) mod 5 \<noteq> k" by (auto simp: mod_if)
    with s have "(k + Suc m) mod 5 \<noteq> k" by metis
    moreover from a have "Suc m div 5 = m div 5" by (simp add: div_Suc)
    ultimately show ?thesis by blast
  qed
  have "k + Suc (Suc m) = (k + Suc m) + 1" by simp
  then have "(k + Suc (Suc m)) mod 5 = ((k + Suc m) + 1) mod 5" by (simp only:)
  also have "\<dots> = ((k + Suc m) mod 5 + 1) mod 5" by (rule mod_add_left_eq[symmetric])
  finally show "((k + Suc m) mod 5 + 1) mod 5 = (k + Suc (Suc m)) mod 5" by (rule sym)
qed

lemma commit_arith:
  fixes r :: nat
  shows "r mod 4 < 4" "(r mod 4 + 1) mod 4 = (r + 1) mod 4"
    "r mod 4 = 3 \<Longrightarrow> 4 \<le> r + 1" "r mod 4 \<noteq> 3 \<Longrightarrow> (4 \<le> r + 1) = (4 \<le> r)"
  by presburger+

lemma debounce_progress:
  assumes w: "wf s0" and k: "k = unat (button s0)"
    and ch: "trueButtonStates s0 ! k \<noteq> v"
    and H: "\<forall>i < length inps. \<forall>t. run_isr (take i inps) s0 = Some t \<and> button t = button s0
              \<longrightarrow> sample t (inps ! i) = v"
  shows "m < length inps \<Longrightarrow>
         \<exists>t. run_isr (take (Suc m) inps) s0 = Some t \<and> wf t
            \<and> unat (button t) = (k + Suc m) mod 5
            \<and> trueButtonStates t ! k = v
            \<and> unat (buttonDebounceCounters t ! k) = (m div 5) mod 4
            \<and> debouncedButtonStates t ! k = (if 4 \<le> m div 5 then v else debouncedButtonStates s0 ! k)"
proof (induction m)
  case 0
  then obtain i tl where i: "inps = i # tl" by (cases inps) auto
  from wf_isr[OF w, of i] obtain t where t: "isr i s0 = Some t" "wf t" by blast
  from H 0 have sv: "sample s0 i = v" by (auto simp: i)
  note c = isr_change[OF w t(1) k[symmetric] sv ch]
  from w k have "k < 5" by (simp add: wf_def word_less_nat_alt)
  then have "(k + 1) mod 5 = (k + Suc 0) mod 5" by simp
  with t c show ?case by (simp add: i)
next
  case (Suc m)
  then have "m < length inps" by simp
  from Suc.IH[OF this] obtain t where
    t: "run_isr (take (Suc m) inps) s0 = Some t" "wf t"
       "unat (button t) = (k + Suc m) mod 5"
       "trueButtonStates t ! k = v"
       "unat (buttonDebounceCounters t ! k) = (m div 5) mod 4"
       "debouncedButtonStates t ! k = (if 4 \<le> m div 5 then v else debouncedButtonStates s0 ! k)"
    by blast
  from w k have k5: "k < 5" by (simp add: wf_def word_less_nat_alt)
  let ?i = "inps ! Suc m"
  from wf_isr[OF t(2), of ?i] obtain t' where t': "isr ?i t = Some t'" "wf t'" by blast
  have tk: "take (Suc (Suc m)) inps = take (Suc m) inps @ [?i]"
    using Suc.prems by (rule take_Suc_conv_app_nth)
  have run: "run_isr (take (Suc (Suc m)) inps) s0 = Some t'"
    by (simp only: tk run_isr_snoc t(1)) (simp add: t')
  show ?case
  proof (cases "Suc m mod 5 = 0")
    case True
    note a = round_arith(1)[OF k5 True]
    from a t(3) have bk: "unat (button t) = k" by simp
    then have "button t = button s0" by (simp add: k word_unat_eq_iff)
    with H Suc.prems t(1) have sv: "sample t ?i = v" by blast
    note st = isr_at_channel[OF t(2) t'(1) bk sv t(4) t(5) commit_arith(1)]
    have b': "unat (button t') = (k + Suc (Suc m)) mod 5"
      using st(4) round_arith(3)[OF k5, of m] a by simp
    have c': "unat (buttonDebounceCounters t' ! k) = (Suc m div 5) mod 4"
      using st(2) a commit_arith(2)[of "m div 5"] by simp
    have d': "debouncedButtonStates t' ! k = (if 4 \<le> Suc m div 5 then v else debouncedButtonStates s0 ! k)"
      using st(3) t(6) a commit_arith(3,4)[of "m div 5"] by (cases "m div 5 mod 4 = 3") simp_all
    from run t'(2) b' st(1) c' d' show ?thesis by blast
  next
    case False
    note a = round_arith(2)[OF k5 False]
    from a t(3) have bk: "unat (button t) \<noteq> k" by simp
    note st = isr_other_channel[OF t(2) t'(1) bk]
    have b': "unat (button t') = (k + Suc (Suc m)) mod 5"
      using st(4) t(3) round_arith(3)[OF k5, of m] by simp
    from run t'(2) b' st(1-3) t(4-6) a show ?thesis by simp
  qed
qed

text \<open>
  C4, as amended. Take a run of firings that starts with a sampling of channel \<open>k\<close>
  at which the normalised sample \<open>v\<close> differs from the channel's previous true state,
  and in which every later sampling of the channel reads \<open>v\<close> again. The channel is
  sampled every fifth firing. Its debounced state keeps the value it had before the run
  through the first 20 firings and is \<open>v\<close> after the 21st, the fourth consistent
  re-sample, and after every later firing; the counter is 0 after the change and counts
  the re-samples modulo 4. So the debounced state changes exactly once, at the fourth
  re-sample, when it differed from \<open>v\<close>, and not at all when it already was \<open>v\<close>.
\<close>

theorem debounce_stability:
  assumes "wf s0" and "trueButtonStates s0 ! unat (button s0) \<noteq> v"
    and "\<forall>i < length inps. \<forall>t. run_isr (take i inps) s0 = Some t \<and> button t = button s0
           \<longrightarrow> sample t (inps ! i) = v"
  shows "\<forall>m \<le> length inps. \<exists>t. run_isr (take m inps) s0 = Some t
            \<and> debouncedButtonStates t ! unat (button s0)
                = (if 21 \<le> m then v else debouncedButtonStates s0 ! unat (button s0))
            \<and> (1 \<le> m \<longrightarrow> trueButtonStates t ! unat (button s0) = v
                  \<and> unat (buttonDebounceCounters t ! unat (button s0)) = ((m - 1) div 5) mod 4)"
proof (intro allI impI)
  fix m assume m: "m \<le> length inps"
  define k where "k = unat (button s0)"
  show "\<exists>t. run_isr (take m inps) s0 = Some t
            \<and> debouncedButtonStates t ! unat (button s0)
                = (if 21 \<le> m then v else debouncedButtonStates s0 ! unat (button s0))
            \<and> (1 \<le> m \<longrightarrow> trueButtonStates t ! unat (button s0) = v
                  \<and> unat (buttonDebounceCounters t ! unat (button s0)) = ((m - 1) div 5) mod 4)"
  proof (cases m)
    case 0
    then show ?thesis by simp
  next
    case (Suc n)
    with m have n: "n < length inps" by simp
    from debounce_progress[OF assms(1) k_def assms(2)[folded k_def] assms(3), of n, OF n]
    obtain t where t: "run_isr (take (Suc n) inps) s0 = Some t"
       "trueButtonStates t ! k = v"
       "unat (buttonDebounceCounters t ! k) = (n div 5) mod 4"
       "debouncedButtonStates t ! k = (if 4 \<le> n div 5 then v else debouncedButtonStates s0 ! k)"
      by blast
    have "(4 \<le> n div 5) = (21 \<le> Suc n)" by arith
    with t Suc show ?thesis by (simp add: k_def)
  qed
qed

lemma sample_pins_down: "sample t pins_down = 1"
  by (simp add: sample_def read_pin_def pins_down_def)

theorem debounce_stability_witness:
  "wf led_start \<and> trueButtonStates led_start ! unat (button led_start) \<noteq> 1
   \<and> (\<exists>t. run_isr (replicate 21 pins_down) led_start = Some t \<and> debouncedButtonStates t ! 0 = 1)
   \<and> (\<exists>t. run_isr (replicate 20 pins_down) led_start = Some t \<and> debouncedButtonStates t ! 0 = 0)"
proof -
  have w: "wf led_start" using reachable_led_start by (rule reachable_wf)
  have c: "trueButtonStates led_start ! unat (button led_start) \<noteq> 1" by code_simp
  have b: "unat (button led_start) = 0" by code_simp
  have d: "debouncedButtonStates led_start ! 0 = 0" by code_simp
  have h: "\<forall>i < length (replicate 21 pins_down). \<forall>t.
             run_isr (take i (replicate 21 pins_down)) led_start = Some t \<and> button t = button led_start
             \<longrightarrow> sample t (replicate 21 pins_down ! i) = 1"
    by (simp add: sample_pins_down)
  note st = debounce_stability[OF w c h]
  have "(21::nat) \<le> length (replicate 21 pins_down)" by simp
  with st have "\<exists>t. run_isr (take 21 (replicate 21 pins_down)) led_start = Some t
            \<and> debouncedButtonStates t ! unat (button led_start)
                = (if (21::nat) \<le> 21 then 1 else debouncedButtonStates led_start ! unat (button led_start))"
    by blast
  then have 1: "\<exists>t. run_isr (replicate 21 pins_down) led_start = Some t \<and> debouncedButtonStates t ! 0 = 1"
    by (simp add: b)
  have "(20::nat) \<le> length (replicate 21 pins_down)" by simp
  with st have "\<exists>t. run_isr (take 20 (replicate 21 pins_down)) led_start = Some t
            \<and> debouncedButtonStates t ! unat (button led_start)
                = (if (21::nat) \<le> 20 then 1 else debouncedButtonStates led_start ! unat (button led_start))"
    by blast
  then have 2: "\<exists>t. run_isr (replicate 20 pins_down) led_start = Some t \<and> debouncedButtonStates t ! 0 = 0"
    by (simp add: b d)
  from w c 1 2 show ?thesis by blast
qed

text \<open>
  C4 as stated fails after a glitch. Channel 0 reads true at the first firing and false
  at firing 5 (a change of the sample), then false again at firings 10, 15, 20 and 25
  (four consistent re-samples). Its debounced state is 0 before the run and after each
  of the 26 firings: it does not change at the fourth re-sample, nor anywhere else.
\<close>

theorem debounce_glitch_no_change:
  "debouncedButtonStates led_start ! 0 = 0 \<and> trueButtonStates led_start ! 0 = 0
   \<and> channel_history 0 (pins_down # replicate 25 pins_idle) led_start
       = replicate 5 (1, 0) @ replicate 21 (0, 0)"
  by code_simp

end
